theory Spec2Isabelle
  imports Main "HOL-Library.AList"
begin

section \<open>The cycler library: data model\<close>

text \<open>
  A record produced by a cycler is a Python \<^verbatim>\<open>dict\<close> from property names to values.
  Python compares dicts without regard to insertion order, so a dict is a map.
\<close>

type_synonym ('k, 'v) dict = "'k \<rightharpoonup> 'v"

text \<open>The two composition operators stored in \<^verbatim>\<open>_op\<close>: \<^verbatim>\<open>zip\<close> and \<^verbatim>\<open>itertools.product\<close>.\<close>

datatype cop = Zip | Product

text \<open>
  Every exception the modelled functions raise, with the parameters of its message.
\<close>

datatype 'k error =
    StopIteration
  | OverlappingCycles
  | UnequalLength nat nat
  | KeyAlreadyExists 'k 'k
  | KeyNotFound 'k 'k
  | KeysDoNotMatch "'k set" "'k set"
  | MultiProperty
  | KeyError 'k
  | AttributeError
  | ReduceEmpty
  | OnlySlices
  | NoArguments

text \<open>
  A \<^verbatim>\<open>Cycler\<close> object has the fields \<^verbatim>\<open>_left\<close>, \<^verbatim>\<open>_right\<close>, \<^verbatim>\<open>_op\<close> and \<^verbatim>\<open>_keys\<close>.
  \<^verbatim>\<open>_left\<close> and \<^verbatim>\<open>_right\<close> hold a list of dicts or another \<^verbatim>\<open>Cycler\<close> (type \<open>side\<close>).
  Every constructor call of the module passes either no right operand and no
  operator (\<open>Cycler1\<close>: \<^verbatim>\<open>_right is None\<close>, \<^verbatim>\<open>_op is None\<close>) or a right operand together
  with \<^verbatim>\<open>zip\<close> or \<^verbatim>\<open>product\<close> (\<open>Cycler2\<close>). \<^verbatim>\<open>_left\<close> is \<^verbatim>\<open>None\<close> only inside
  \<^verbatim>\<open>_from_iter\<close>, between \<^verbatim>\<open>cls(None)\<close> and the assignment that follows it.
  No two objects share a child: \<^verbatim>\<open>__init__\<close> copies its operands, and the in-place
  operators move the old fields of the receiver into a fresh object; so a cycler
  is a tree.
\<close>

datatype ('k, 'v) cycler =
    Cycler1 (left: "('k, 'v) side") (keys: "'k set")
  | Cycler2 (left: "('k, 'v) side") (op: cop) (right: "('k, 'v) side") (keys: "'k set")
and ('k, 'v) side =
    Dicts "('k, 'v) dict list"
  | Sub "('k, 'v) cycler"

section \<open>Iteration and length\<close>

text \<open>
  \<^verbatim>\<open>_compose\<close>: for every pair \<open>(a, b)\<close> delivered by the operator, a fresh dict updated
  with \<open>a\<close> and then with \<open>b\<close>. \<^verbatim>\<open>itertools.product\<close> runs through the right
  operand for each element of the left one, as \<^const>\<open>List.product\<close> does.
\<close>

definition pairs :: "cop \<Rightarrow> 'a list \<Rightarrow> 'b list \<Rightarrow> ('a \<times> 'b) list" where
  "pairs f xs ys = (case f of Zip \<Rightarrow> zip xs ys | Product \<Rightarrow> List.product xs ys)"

definition compose :: "cop \<Rightarrow> ('k, 'v) dict list \<Rightarrow> ('k, 'v) dict list \<Rightarrow> ('k, 'v) dict list" where
  "compose f xs ys = map (\<lambda>(a, b). (Map.empty ++ a) ++ b) (pairs f xs ys)"

text \<open>\<^verbatim>\<open>__iter__\<close>, as the list of the records one full iteration yields.\<close>

fun iter :: "('k, 'v) cycler \<Rightarrow> ('k, 'v) dict list"
  and iter_side :: "('k, 'v) side \<Rightarrow> ('k, 'v) dict list" where
  "iter (Cycler1 l K) = iter_side l"
| "iter (Cycler2 l f r K) = compose f (iter_side l) (iter_side r)"
| "iter_side (Dicts ds) = ds"
| "iter_side (Sub c) = iter c"

text \<open>\<^verbatim>\<open>__len__\<close>: \<^verbatim>\<open>op_dict = {zip: min, product: mul}\<close>.\<close>

definition op_dict :: "cop \<Rightarrow> nat \<Rightarrow> nat \<Rightarrow> nat" where
  "op_dict f = (case f of Zip \<Rightarrow> min | Product \<Rightarrow> (*))"

fun len :: "('k, 'v) cycler \<Rightarrow> nat"
  and len_side :: "('k, 'v) side \<Rightarrow> nat" where
  "len (Cycler1 l K) = len_side l"
| "len (Cycler2 l f r K) = op_dict f (len_side l) (len_side r)"
| "len_side (Dicts ds) = length ds"
| "len_side (Sub c) = len c"

section \<open>Construction\<close>

text \<open>\<^verbatim>\<open>next(iter(x))\<close>: the first record, or \<^verbatim>\<open>StopIteration\<close> when there is none.\<close>

definition peek :: "('k, 'v) side \<Rightarrow> 'k error + ('k, 'v) dict" where
  "peek s = (case iter_side s of [] \<Rightarrow> Inl StopIteration | d # _ \<Rightarrow> Inr d)"

text \<open>\<^verbatim>\<open>_process_keys(left, right)\<close>; a missing operand (\<^verbatim>\<open>None\<close>) counts as the empty dict.\<close>

definition process_keys ::
  "('k, 'v) side option \<Rightarrow> ('k, 'v) side option \<Rightarrow> 'k error + 'k set" where
  "process_keys l r =
     (case (case l of None \<Rightarrow> Inr Map.empty | Some x \<Rightarrow> peek x) of
        Inl e \<Rightarrow> Inl e
      | Inr l_peek \<Rightarrow>
          (case (case r of None \<Rightarrow> Inr Map.empty | Some y \<Rightarrow> peek y) of
             Inl e \<Rightarrow> Inl e
           | Inr r_peek \<Rightarrow>
               (let l_key = dom l_peek; r_key = dom r_peek in
                if l_key \<inter> r_key \<noteq> {} then Inl OverlappingCycles
                else Inr (l_key \<union> r_key))))"

text \<open>
  \<^verbatim>\<open>Cycler.__init__(left, right, op)\<close>. An operand that is a \<^verbatim>\<open>Cycler\<close> is rebuilt from its
  three fields by a recursive call of the constructor; a list is copied element
  by element (\<^verbatim>\<open>copy.copy\<close> of a dict is the same map). \<open>init_side\<close> is the
  \<^verbatim>\<open>isinstance\<close> branch for one operand.
\<close>

function Cycler_init ::
    "('k, 'v) side \<Rightarrow> (cop \<times> ('k, 'v) side) option \<Rightarrow> 'k error + ('k, 'v) cycler"
  and init_side :: "('k, 'v) side \<Rightarrow> 'k error + ('k, 'v) side" where
  "Cycler_init l None =
     (case init_side l of
        Inl e \<Rightarrow> Inl e
      | Inr l' \<Rightarrow>
          (case process_keys (Some l') None of
             Inl e \<Rightarrow> Inl e
           | Inr K \<Rightarrow> Inr (Cycler1 l' K)))"
| "Cycler_init l (Some (f, r)) =
     (case init_side l of
        Inl e \<Rightarrow> Inl e
      | Inr l' \<Rightarrow>
          (case init_side r of
             Inl e \<Rightarrow> Inl e
           | Inr r' \<Rightarrow>
               (case process_keys (Some l') (Some r') of
                  Inl e \<Rightarrow> Inl e
                | Inr K \<Rightarrow> Inr (Cycler2 l' f r' K))))"
| "init_side (Dicts ds) = Inr (Dicts ds)"
| "init_side (Sub (Cycler1 l K)) =
     (case Cycler_init l None of Inl e \<Rightarrow> Inl e | Inr c \<Rightarrow> Inr (Sub c))"
| "init_side (Sub (Cycler2 l f r K)) =
     (case Cycler_init l (Some (f, r)) of Inl e \<Rightarrow> Inl e | Inr c \<Rightarrow> Inr (Sub c))"
  by pat_completeness auto
termination
  by (relation "measure (\<lambda>x. case x of
         Inl (l, ro) \<Rightarrow> 2 * (size l + (case ro of None \<Rightarrow> 0 | Some (f, r) \<Rightarrow> size r)) + 1
       | Inr s \<Rightarrow> 2 * size s)") auto

text \<open>
  \<^verbatim>\<open>Cycler._from_iter(label, itr)\<close>: \<^verbatim>\<open>cls(None)\<close> cannot fail (both key sets are empty),
  then \<^verbatim>\<open>_left\<close> and \<^verbatim>\<open>_keys\<close> are overwritten.
\<close>

definition from_iter :: "'k \<Rightarrow> 'v list \<Rightarrow> ('k, 'v) cycler" where
  "from_iter label itr = Cycler1 (Dicts (map (\<lambda>v. [label \<mapsto> v]) itr)) {label}"

text \<open>
  \<^verbatim>\<open>_cycler(label, itr)\<close>: \<open>itr\<close> is a finite iterable of values or a \<^verbatim>\<open>Cycler\<close> with
  one key, whose values are read under that key.
\<close>

datatype ('k, 'v) itr = Values "'v list" | OfCycler "('k, 'v) cycler"

fun values_under :: "'k \<Rightarrow> ('k, 'v) dict list \<Rightarrow> 'k error + 'v list" where
  "values_under lab [] = Inr []"
| "values_under lab (v # vs) =
     (case v lab of
        None \<Rightarrow> Inl (KeyError lab)
      | Some x \<Rightarrow> (case values_under lab vs of Inl e \<Rightarrow> Inl e | Inr xs \<Rightarrow> Inr (x # xs)))"

definition cycler_label :: "'k \<Rightarrow> ('k, 'v) itr \<Rightarrow> 'k error + ('k, 'v) cycler" where
  "cycler_label label i =
     (case i of
        Values vs \<Rightarrow> Inr (from_iter label vs)
      | OfCycler c \<Rightarrow>
          if card (keys c) \<noteq> 1 then Inl MultiProperty
          else (case values_under (the_elem (keys c)) (iter c) of
                  Inl e \<Rightarrow> Inl e
                | Inr vs \<Rightarrow> Inr (from_iter label vs)))"

section \<open>Composition\<close>

text \<open>\<^verbatim>\<open>__add__\<close> and \<^verbatim>\<open>__mul__\<close> with a \<^verbatim>\<open>Cycler\<close> operand.\<close>

definition add :: "('k, 'v) cycler \<Rightarrow> ('k, 'v) cycler \<Rightarrow> 'k error + ('k, 'v) cycler" where
  "add self other =
     (if len self \<noteq> len other then Inl (UnequalLength (len self) (len other))
      else Cycler_init (Sub self) (Some (Zip, Sub other)))"

definition mul :: "('k, 'v) cycler \<Rightarrow> ('k, 'v) cycler \<Rightarrow> 'k error + ('k, 'v) cycler" where
  "mul self other = Cycler_init (Sub self) (Some (Product, Sub other))"

text \<open>
  \<^verbatim>\<open>Cycler(other._left, other._right, other._op)\<close>, the copy the in-place operators
  take of their operand.
\<close>

definition copy_fields :: "('k, 'v) cycler \<Rightarrow> 'k error + ('k, 'v) cycler" where
  "copy_fields other =
     (case other of
        Cycler1 l K \<Rightarrow> Cycler_init l None
      | Cycler2 l f r K \<Rightarrow> Cycler_init l (Some (f, r)))"

text \<open>
  \<^verbatim>\<open>__iadd__\<close> and \<^verbatim>\<open>__imul__\<close>: the receiver's old state (\<^verbatim>\<open>old_self\<close>, a shallow copy)
  becomes the left child. The result is the new state of the receiver; when
  \<^verbatim>\<open>_process_keys\<close> raises, the receiver is unchanged. Neither compares lengths.
\<close>

definition inplace :: "cop \<Rightarrow> ('k, 'v) cycler \<Rightarrow> ('k, 'v) cycler \<Rightarrow> 'k error + ('k, 'v) cycler" where
  "inplace f self other =
     (let old_self = self in
      case process_keys (Some (Sub old_self)) (Some (Sub other)) of
        Inl e \<Rightarrow> Inl e
      | Inr K \<Rightarrow>
          (case copy_fields other of
             Inl e \<Rightarrow> Inl e
           | Inr r \<Rightarrow> Inr (Cycler2 (Sub old_self) f (Sub r) K)))"

definition iadd :: "('k, 'v) cycler \<Rightarrow> ('k, 'v) cycler \<Rightarrow> 'k error + ('k, 'v) cycler" where
  "iadd self other = inplace Zip self other"

definition imul :: "('k, 'v) cycler \<Rightarrow> ('k, 'v) cycler \<Rightarrow> 'k error + ('k, 'v) cycler" where
  "imul self other = inplace Product self other"

text \<open>\<^verbatim>\<open>__eq__\<close>; \<^verbatim>\<open>^\<close> on sets is the symmetric difference.\<close>

definition sym_diff :: "'a set \<Rightarrow> 'a set \<Rightarrow> 'a set" where
  "sym_diff A B = (A - B) \<union> (B - A)"

definition eq :: "('k, 'v) cycler \<Rightarrow> ('k, 'v) cycler \<Rightarrow> bool" where
  "eq self other =
     (if len self \<noteq> len other then False
      else if sym_diff (keys self) (keys other) \<noteq> {} then False
      else list_all (\<lambda>(a, b). a = b) (zip (iter self) (iter other)))"

section \<open>Transposition and the operations built on it\<close>

text \<open>
  \<^verbatim>\<open>by_key\<close>. The result is a dict of lists; the list \<open>ks\<close> is the order in which
  Python iterates the set \<^verbatim>\<open>self.keys\<close>, which is also the insertion order of the
  result. \<open>append_values\<close> is the inner loop, \<open>transpose_loop\<close> the outer one.
\<close>

fun append_values ::
  "'k list \<Rightarrow> ('k, 'v) dict \<Rightarrow> ('k \<times> 'v list) list \<Rightarrow> 'k error + ('k \<times> 'v list) list" where
  "append_values [] d out = Inr out"
| "append_values (k # ks) d out =
     (case d k of
        None \<Rightarrow> Inl (KeyError k)
      | Some v \<Rightarrow> append_values ks d (AList.map_entry k (\<lambda>vs. vs @ [v]) out))"

fun transpose_loop ::
  "('k, 'v) dict list \<Rightarrow> 'k list \<Rightarrow> ('k \<times> 'v list) list \<Rightarrow> 'k error + ('k \<times> 'v list) list" where
  "transpose_loop [] ks out = Inr out"
| "transpose_loop (d # ds) ks out =
     (case append_values ks d out of
        Inl e \<Rightarrow> Inl e
      | Inr out' \<Rightarrow> transpose_loop ds ks out')"

definition by_key :: "'k list \<Rightarrow> ('k, 'v) cycler \<Rightarrow> 'k error + ('k \<times> 'v list) list" where
  "by_key ks self = transpose_loop (iter self) ks (map (\<lambda>k. (k, [])) ks)"

text \<open>
  \<^verbatim>\<open>reduce(add, (g(x) for x in xs))\<close>: the generator is consumed one element at a
  time, each new cycler added to the accumulated one.
\<close>

fun fold_add ::
  "('a \<Rightarrow> 'k error + ('k, 'v) cycler) \<Rightarrow> ('k, 'v) cycler \<Rightarrow> 'a list \<Rightarrow> 'k error + ('k, 'v) cycler" where
  "fold_add g acc [] = Inr acc"
| "fold_add g acc (x # xs) =
     (case g x of
        Inl e \<Rightarrow> Inl e
      | Inr c \<Rightarrow> (case add acc c of Inl e \<Rightarrow> Inl e | Inr acc' \<Rightarrow> fold_add g acc' xs))"

fun reduce_add ::
  "('a \<Rightarrow> 'k error + ('k, 'v) cycler) \<Rightarrow> 'a list \<Rightarrow> 'k error + ('k, 'v) cycler" where
  "reduce_add g [] = Inl ReduceEmpty"
| "reduce_add g (x # xs) = (case g x of Inl e \<Rightarrow> Inl e | Inr c \<Rightarrow> fold_add g c xs)"

text \<open>\<^verbatim>\<open>simplify\<close>.\<close>

definition simplify :: "'k list \<Rightarrow> ('k, 'v) cycler \<Rightarrow> 'k error + ('k, 'v) cycler" where
  "simplify ks self =
     (case by_key ks self of
        Inl e \<Rightarrow> Inl e
      | Inr byk \<Rightarrow> reduce_add (\<lambda>(k, v). Inr (from_iter k v)) byk)"

text \<open>
  \<^verbatim>\<open>__mul__\<close> with an \<^verbatim>\<open>int\<close> operand; \<^verbatim>\<open>v * other\<close> repeats the list \<open>v\<close>, and is empty
  for \<open>other \<le> 0\<close>.
\<close>

definition list_times :: "'a list \<Rightarrow> int \<Rightarrow> 'a list" where
  "list_times v n = concat (replicate (nat n) v)"

definition mul_int :: "'k list \<Rightarrow> ('k, 'v) cycler \<Rightarrow> int \<Rightarrow> 'k error + ('k, 'v) cycler" where
  "mul_int ks self other =
     (case by_key ks self of
        Inl e \<Rightarrow> Inl e
      | Inr byk \<Rightarrow> reduce_add (\<lambda>(k, v). Inr (from_iter k (list_times v other))) byk)"

text \<open>
  \<^verbatim>\<open>__getitem__\<close>. Slicing a list is Python's own; it is the parameter \<open>sl\<close> of a
  slice key. Any other key is refused.
\<close>

datatype ('k, 'v) index = Slice "'v list \<Rightarrow> 'k error + 'v list" | NotASlice

definition getitem :: "'k list \<Rightarrow> ('k, 'v) cycler \<Rightarrow> ('k, 'v) index \<Rightarrow> 'k error + ('k, 'v) cycler" where
  "getitem ks self key =
     (case key of
        Slice sl \<Rightarrow>
          (case by_key ks self of
             Inl e \<Rightarrow> Inl e
           | Inr byk \<Rightarrow>
               reduce_add (\<lambda>(k, v). case sl v of Inl e \<Rightarrow> Inl e | Inr w \<Rightarrow> Inr (from_iter k w)) byk)
      | NotASlice \<Rightarrow> Inl OnlySlices)"

text \<open>
  \<^verbatim>\<open>concat(left, right)\<close>, with \<open>lhs\<close> and \<open>rhs\<close> for the operands. \<open>kl\<close> and \<open>kr\<close> are the iteration orders of the key sets
  inside the two \<^verbatim>\<open>by_key\<close> calls, \<open>ks\<close> the order of \<^verbatim>\<open>for k in left.keys\<close>. The
  error carries the two sets the message prints: the intersection and the
  symmetric difference.
\<close>

definition chained ::
  "('k \<times> 'v list) list \<Rightarrow> ('k \<times> 'v list) list \<Rightarrow> 'k \<Rightarrow> 'k error + ('k, 'v) cycler" where
  "chained l r k =
     (case map_of l k of
        None \<Rightarrow> Inl (KeyError k)
      | Some lv \<Rightarrow>
          (case map_of r k of
             None \<Rightarrow> Inl (KeyError k)
           | Some rv \<Rightarrow> Inr (from_iter k (lv @ rv))))"

definition concat_cyclers ::
  "'k list \<Rightarrow> 'k list \<Rightarrow> 'k list \<Rightarrow> ('k, 'v) cycler \<Rightarrow> ('k, 'v) cycler \<Rightarrow>
     'k error + ('k, 'v) cycler" where
  "concat_cyclers kl kr ks lhs rhs =
     (if keys lhs \<noteq> keys rhs
      then Inl (KeysDoNotMatch (keys lhs \<inter> keys rhs) (sym_diff (keys lhs) (keys rhs)))
      else
        (case by_key kl lhs of
           Inl e \<Rightarrow> Inl e
         | Inr l \<Rightarrow>
             (case by_key kr rhs of
                Inl e \<Rightarrow> Inl e
              | Inr r \<Rightarrow> reduce_add (chained l r) ks)))"

section \<open>Renaming a key\<close>

text \<open>
  \<^verbatim>\<open>change_key(old, new)\<close> mutates the receiver; the result is its new state.
  \<open>rename_entries\<close> is the list comprehension \<^verbatim>\<open>[{new: entry[old]} for entry in self._left]\<close>,
  \<open>change_left\<close> the two branches that work on \<^verbatim>\<open>_left\<close>. A \<^verbatim>\<open>_right\<close> that is a
  list has no attribute \<^verbatim>\<open>keys\<close>.
\<close>

fun rename_entries :: "'k \<Rightarrow> 'k \<Rightarrow> ('k, 'v) dict list \<Rightarrow> 'k error + ('k, 'v) dict list" where
  "rename_entries old new [] = Inr []"
| "rename_entries old new (entry # es) =
     (case entry old of
        None \<Rightarrow> Inl (KeyError old)
      | Some v \<Rightarrow>
          (case rename_entries old new es of
             Inl e \<Rightarrow> Inl e
           | Inr es' \<Rightarrow> Inr ([new \<mapsto> v] # es')))"

fun change_key :: "('k, 'v) cycler \<Rightarrow> 'k \<Rightarrow> 'k \<Rightarrow> 'k error + ('k, 'v) cycler"
  and change_left :: "('k, 'v) side \<Rightarrow> 'k \<Rightarrow> 'k \<Rightarrow> 'k error + ('k, 'v) side" where
  "change_key (Cycler1 l K) old new =
     (if old = new then Inr (Cycler1 l K)
      else if new \<in> K then Inl (KeyAlreadyExists old new)
      else if old \<notin> K then Inl (KeyNotFound old new)
      else
        (case change_left l old new of
           Inl e \<Rightarrow> Inl e
         | Inr l' \<Rightarrow> Inr (Cycler1 l' (insert new (K - {old})))))"
| "change_key (Cycler2 l f r K) old new =
     (if old = new then Inr (Cycler2 l f r K)
      else if new \<in> K then Inl (KeyAlreadyExists old new)
      else if old \<notin> K then Inl (KeyNotFound old new)
      else
        (case r of
           Dicts rs \<Rightarrow> Inl AttributeError
         | Sub rc \<Rightarrow>
             if old \<in> keys rc
             then (case change_key rc old new of
                     Inl e \<Rightarrow> Inl e
                   | Inr rc' \<Rightarrow> Inr (Cycler2 l f (Sub rc') (insert new (K - {old}))))
             else (case change_left l old new of
                     Inl e \<Rightarrow> Inl e
                   | Inr l' \<Rightarrow> Inr (Cycler2 l' f r (insert new (K - {old}))))))"
| "change_left (Sub lc) old new =
     (case change_key lc old new of Inl e \<Rightarrow> Inl e | Inr lc' \<Rightarrow> Inr (Sub lc'))"
| "change_left (Dicts ds) old new =
     (case rename_entries old new ds of Inl e \<Rightarrow> Inl e | Inr ds' \<Rightarrow> Inr (Dicts ds'))"

section \<open>The factory function\<close>

text \<open>
  \<^verbatim>\<open>cycler(arg)\<close> copies a cycler, \<^verbatim>\<open>cycler(label, itr)\<close> is \<^const>\<open>cycler_label\<close>, and
  \<^verbatim>\<open>cycler(label1=itr1, ...)\<close> adds up one cycler per keyword argument.
\<close>

definition cycler_copy :: "('k, 'v) cycler \<Rightarrow> 'k error + ('k, 'v) cycler" where
  "cycler_copy arg = Cycler_init (Sub arg) None"

definition cycler_kwargs :: "('k \<times> ('k, 'v) itr) list \<Rightarrow> 'k error + ('k, 'v) cycler" where
  "cycler_kwargs kwargs =
     (if kwargs = [] then Inl NoArguments
      else reduce_add (\<lambda>(k, v). cycler_label k v) kwargs)"

section \<open>Cyclers the module can build\<close>

text \<open>
  The shape of the objects the functions above return. A cycler without a right
  operand holds either a list of one-key dicts over its single key, or a
  non-empty cycler with the same keys. A composite holds two non-empty cyclers
  with disjoint keys, and its keys are theirs.
\<close>

fun wellformed :: "('k, 'v) cycler \<Rightarrow> bool" where
  "wellformed (Cycler1 (Dicts ds) K) = (is_singleton K \<and> list_all (\<lambda>d. dom d = K) ds)"
| "wellformed (Cycler1 (Sub c) K) = (wellformed c \<and> iter c \<noteq> [] \<and> K = keys c)"
| "wellformed (Cycler2 (Sub a) f (Sub b) K) =
     (wellformed a \<and> wellformed b \<and> iter a \<noteq> [] \<and> iter b \<noteq> [] \<and>
      keys a \<inter> keys b = {} \<and> K = keys a \<union> keys b)"
| "wellformed (Cycler2 l f r K) = False"

text \<open>\<open>ks\<close> is an order in which the key set of \<open>c\<close> can be iterated.\<close>

definition key_order :: "'k list \<Rightarrow> ('k, 'v) cycler \<Rightarrow> bool" where
  "key_order ks c = (distinct ks \<and> set ks = keys c)"

text \<open>
  The cyclers obtained from the public functions of the module. The constructor
  itself is included for operands that are cyclers (\<open>by_init\<close>); applied to raw
  lists of dicts it is private to the module.
\<close>

inductive reachable :: "('k, 'v) cycler \<Rightarrow> bool" where
  by_label: "cycler_label label (Values vs) = Inr c \<Longrightarrow> reachable c"
| by_label_cycler: "reachable a \<Longrightarrow> cycler_label label (OfCycler a) = Inr c \<Longrightarrow> reachable c"
| by_copy: "reachable a \<Longrightarrow> cycler_copy a = Inr c \<Longrightarrow> reachable c"
| by_kwargs: "(\<forall>k a. (k, OfCycler a) \<in> set kwargs \<longrightarrow> reachable a) \<Longrightarrow>
     cycler_kwargs kwargs = Inr c \<Longrightarrow> reachable c"
| by_add: "reachable a \<Longrightarrow> reachable b \<Longrightarrow> add a b = Inr c \<Longrightarrow> reachable c"
| by_mul: "reachable a \<Longrightarrow> reachable b \<Longrightarrow> mul a b = Inr c \<Longrightarrow> reachable c"
| by_init: "reachable a \<Longrightarrow> reachable b \<Longrightarrow>
     Cycler_init (Sub a) (Some (f, Sub b)) = Inr c \<Longrightarrow> reachable c"
| by_mul_int: "reachable a \<Longrightarrow> key_order ks a \<Longrightarrow> mul_int ks a n = Inr c \<Longrightarrow> reachable c"
| by_iadd: "reachable a \<Longrightarrow> reachable b \<Longrightarrow> iadd a b = Inr c \<Longrightarrow> reachable c"
| by_imul: "reachable a \<Longrightarrow> reachable b \<Longrightarrow> imul a b = Inr c \<Longrightarrow> reachable c"
| by_getitem: "reachable a \<Longrightarrow> key_order ks a \<Longrightarrow> getitem ks a key = Inr c \<Longrightarrow> reachable c"
| by_simplify: "reachable a \<Longrightarrow> key_order ks a \<Longrightarrow> simplify ks a = Inr c \<Longrightarrow> reachable c"
| by_concat: "reachable a \<Longrightarrow> reachable b \<Longrightarrow> key_order kl a \<Longrightarrow> key_order kr b \<Longrightarrow>
     key_order ks a \<Longrightarrow> concat_cyclers kl kr ks a b = Inr c \<Longrightarrow> reachable c"
| by_change_key: "reachable a \<Longrightarrow> change_key a old new = Inr c \<Longrightarrow> reachable c"

text \<open>What \<^const>\<open>change_key\<close> does to one record: the value under \<open>old\<close> moves to \<open>new\<close>.\<close>

definition rename_key :: "'k \<Rightarrow> 'k \<Rightarrow> ('k, 'v) dict \<Rightarrow> ('k, 'v) dict" where
  "rename_key old new d = (\<lambda>k. if k = new then d old else if k = old then None else d k)"

text \<open>\<^verbatim>\<open>c.by_key()[k]\<close>: the list of values under one key.\<close>

definition value_list :: "'k list \<Rightarrow> ('k, 'v) cycler \<Rightarrow> 'k \<Rightarrow> 'k error + 'v list" where
  "value_list ks c k =
     (case by_key ks c of
        Inl e \<Rightarrow> Inl e
      | Inr byk \<Rightarrow> (case map_of byk k of None \<Rightarrow> Inl (KeyError k) | Some v \<Rightarrow> Inr v))"

section \<open>Auxiliary notions\<close>

text \<open>
  The values a list of records holds under one key, the dict of lists made of
  these columns, and row \<open>i\<close> of a dict of lists.
\<close>

definition column :: "'k \<Rightarrow> ('k, 'v) dict list \<Rightarrow> 'v list" where
  "column k ds = map (\<lambda>d. the (d k)) ds"

definition table :: "'k list \<Rightarrow> ('k, 'v) dict list \<Rightarrow> ('k \<times> 'v list) list" where
  "table ks ds = map (\<lambda>k. (k, column k ds)) ks"

definition row :: "('k \<times> 'v list) list \<Rightarrow> nat \<Rightarrow> ('k, 'v) dict" where
  "row tbl i = (\<lambda>k. map_option (\<lambda>v. v ! i) (map_of tbl k))"

section \<open>Basic facts\<close>

lemma len_iter: "len (c :: ('k, 'v) cycler) = length (iter c)"
  and len_side_iter: "len_side (s :: ('k, 'v) side) = length (iter_side s)"
  by (induction c and s rule: iter_iter_side.induct) (auto simp: compose_def pairs_def op_dict_def split: cop.splits)

lemma pairs_mem: "(a, b) \<in> set (pairs f xs ys) \<Longrightarrow> a \<in> set xs \<and> b \<in> set ys"
  by (cases f) (auto simp: pairs_def dest: set_zip_leftD set_zip_rightD)

lemma compose_Nil: "compose f xs ys = [] \<longleftrightarrow> xs = [] \<or> ys = []"
proof -
  have "length (compose f xs ys) = 0 \<longleftrightarrow> xs = [] \<or> ys = []"
    by (cases f) (auto simp: compose_def pairs_def min_def)
  then show ?thesis by simp
qed


lemma dom_compose:
  assumes "\<forall>d\<in>set xs. dom d = A" and "\<forall>d\<in>set ys. dom d = B"
  shows "\<forall>d\<in>set (compose f xs ys). dom d = A \<union> B"
proof
  fix d assume "d \<in> set (compose f xs ys)"
  then obtain a b where "d = a ++ b" "(a, b) \<in> set (pairs f xs ys)"
    by (auto simp: compose_def)
  with assms pairs_mem[of a b f xs ys] show "dom d = A \<union> B" by auto
qed

lemma wellformed_dom: "wellformed c \<Longrightarrow> \<forall>d\<in>set (iter c). dom d = keys c"
proof (induction c rule: wellformed.induct)
  case (1 ds K)
  then show ?case by (simp add: list_all_iff)
next
  case (2 c K)
  then show ?case by simp
next
  case (3 a f b K)
  then show ?case using dom_compose[of "iter a" "keys a" "iter b" "keys b" f] by simp
qed simp_all

lemma peek_wellformed:
  assumes "wellformed c" and "iter c \<noteq> []"
  shows "\<exists>d. peek (Sub c) = Inr d \<and> dom d = keys c"
proof -
  from assms(2) obtain d ds where e: "iter c = d # ds" by (cases "iter c") auto
  with wellformed_dom[OF assms(1)] have "dom d = keys c" by simp
  with e show ?thesis by (simp add: peek_def)
qed

lemma peek_empty: "iter c = [] \<Longrightarrow> peek (Sub c) = Inl StopIteration"
  by (simp add: peek_def)

lemma init_side_wellformed:
  "wellformed c \<Longrightarrow> iter c \<noteq> [] \<Longrightarrow> init_side (Sub c) = Inr (Sub c)"
proof (induction c rule: wellformed.induct)
  case (1 ds K)
  then obtain d ds' where "ds = d # ds'" by (cases ds) auto
  with 1 show ?case by (simp add: process_keys_def peek_def)
next
  case (2 c K)
  then have i: "init_side (Sub c) = Inr (Sub c)" by simp
  from 2 obtain d where "peek (Sub c) = Inr d" "dom d = keys c"
    using peek_wellformed[of c] by auto
  with 2 i show ?case by (simp add: process_keys_def)
next
  case (3 a f b K)
  then have i: "init_side (Sub a) = Inr (Sub a)" "init_side (Sub b) = Inr (Sub b)" by simp_all
  from 3 obtain d where d: "peek (Sub a) = Inr d" "dom d = keys a"
    using peek_wellformed[of a] by auto
  from 3 obtain e where e: "peek (Sub b) = Inr e" "dom e = keys b"
    using peek_wellformed[of b] by auto
  from 3 i d e show ?case by (simp add: process_keys_def)
qed simp_all

lemma wellformed_empty:
  "wellformed c \<Longrightarrow> iter c = [] \<Longrightarrow> \<exists>K. c = Cycler1 (Dicts []) K"
  by (induction c rule: wellformed.induct) (auto simp: compose_Nil)

lemma init_side_empty:
  "wellformed c \<Longrightarrow> iter c = [] \<Longrightarrow> init_side (Sub c) = Inl StopIteration"
  by (auto dest!: wellformed_empty simp: process_keys_def peek_def)

section \<open>Facts about construction and composition\<close>

lemma init_side_copy_fields:
  "init_side (Sub c) = (case copy_fields c of Inl e \<Rightarrow> Inl e | Inr c' \<Rightarrow> Inr (Sub c'))"
  by (cases c) (simp_all add: copy_fields_def)

lemma copy_fields_wellformed:
  "wellformed c \<Longrightarrow> iter c \<noteq> [] \<Longrightarrow> copy_fields c = Inr c"
  using init_side_wellformed[of c] by (simp add: init_side_copy_fields split: sum.splits)

lemma copy_fields_empty:
  "wellformed c \<Longrightarrow> iter c = [] \<Longrightarrow> copy_fields c = Inl StopIteration"
  using init_side_empty[of c] by (simp add: init_side_copy_fields split: sum.splits)

lemma process_keys_wellformed:
  assumes "wellformed a" "iter a \<noteq> []" "wellformed b" "iter b \<noteq> []"
  shows "process_keys (Some (Sub a)) (Some (Sub b)) =
           (if keys a \<inter> keys b \<noteq> {} then Inl OverlappingCycles else Inr (keys a \<union> keys b))"
proof -
  from assms obtain d where d: "peek (Sub a) = Inr d" "dom d = keys a"
    using peek_wellformed[of a] by auto
  from assms obtain e where e: "peek (Sub b) = Inr e" "dom e = keys b"
    using peek_wellformed[of b] by auto
  from d e show ?thesis by (simp add: process_keys_def)
qed

lemma process_keys_left_empty:
  "iter a = [] \<Longrightarrow> process_keys (Some (Sub a)) r = Inl StopIteration"
  by (simp add: process_keys_def peek_def)

lemma process_keys_right_empty:
  "wellformed a \<Longrightarrow> iter a \<noteq> [] \<Longrightarrow> iter b = [] \<Longrightarrow>
     process_keys (Some (Sub a)) (Some (Sub b)) = Inl StopIteration"
  using peek_wellformed[of a] by (auto simp: process_keys_def peek_empty)

lemma Cycler_init_wellformed:
  assumes "wellformed a" "iter a \<noteq> []" "wellformed b" "iter b \<noteq> []"
  shows "Cycler_init (Sub a) (Some (f, Sub b)) =
           (if keys a \<inter> keys b \<noteq> {} then Inl OverlappingCycles
            else Inr (Cycler2 (Sub a) f (Sub b) (keys a \<union> keys b)))"
  using assms init_side_wellformed[of a] init_side_wellformed[of b]
    process_keys_wellformed[of a b]
  by simp

lemma Cycler_init_left_empty:
  "wellformed a \<Longrightarrow> iter a = [] \<Longrightarrow> Cycler_init (Sub a) ro = Inl StopIteration"
  using init_side_empty[of a] by (cases ro) auto

lemma Cycler_init_right_empty:
  "wellformed a \<Longrightarrow> iter a \<noteq> [] \<Longrightarrow> wellformed b \<Longrightarrow> iter b = [] \<Longrightarrow>
     Cycler_init (Sub a) (Some (f, Sub b)) = Inl StopIteration"
  using init_side_wellformed[of a] init_side_empty[of b] by simp

lemma inplace_wellformed:
  assumes "wellformed a" "iter a \<noteq> []" "wellformed b" "iter b \<noteq> []"
  shows "inplace f a b =
           (if keys a \<inter> keys b \<noteq> {} then Inl OverlappingCycles
            else Inr (Cycler2 (Sub a) f (Sub b) (keys a \<union> keys b)))"
  using assms process_keys_wellformed[of a b] copy_fields_wellformed[of b]
  by (simp add: inplace_def)

lemma inplace_empty:
  assumes "wellformed a" "wellformed b" "iter a = [] \<or> iter b = []"
  shows "inplace f a b = Inl StopIteration"
proof (cases "iter a = []")
  case True
  then show ?thesis by (simp add: inplace_def process_keys_left_empty)
next
  case False
  with assms show ?thesis by (simp add: inplace_def process_keys_right_empty)
qed

lemma add_wellformed:
  assumes "wellformed a" "wellformed b" "iter a \<noteq> []" "len a = len b" "keys a \<inter> keys b = {}"
  shows "add a b = Inr (Cycler2 (Sub a) Zip (Sub b) (keys a \<union> keys b))"
proof -
  from assms have "iter b \<noteq> []" by (auto simp: len_iter)
  with assms show ?thesis by (simp add: add_def Cycler_init_wellformed del: Cycler_init.simps)
qed

text \<open>Whatever a composition returns is well formed.\<close>

lemma Cycler_init_Inr:
  assumes "wellformed a" "wellformed b" "Cycler_init (Sub a) (Some (f, Sub b)) = Inr c"
  shows "c = Cycler2 (Sub a) f (Sub b) (keys a \<union> keys b) \<and> wellformed c \<and> iter a \<noteq> [] \<and> iter b \<noteq> []
     \<and> keys a \<inter> keys b = {}"
proof -
  have a: "iter a \<noteq> []"
    using assms Cycler_init_left_empty[of a] by (auto simp del: Cycler_init.simps)
  have b: "iter b \<noteq> []"
    using assms a Cycler_init_right_empty[of a b f] by (auto simp del: Cycler_init.simps)
  from assms a b show ?thesis
    by (auto simp: Cycler_init_wellformed simp del: Cycler_init.simps split: if_splits)
qed

lemma inplace_Inr:
  assumes "wellformed a" "wellformed b" "inplace f a b = Inr c"
  shows "c = Cycler2 (Sub a) f (Sub b) (keys a \<union> keys b) \<and> wellformed c"
proof -
  have ab: "iter a \<noteq> []" "iter b \<noteq> []"
    using assms inplace_empty[of a b f] by auto
  with assms show ?thesis by (auto simp: inplace_wellformed split: if_splits)
qed

lemma cycler_copy_Inr:
  assumes "wellformed a" "cycler_copy a = Inr c"
  shows "c = Cycler1 (Sub a) (keys a) \<and> wellformed c"
proof -
  have a: "iter a \<noteq> []"
    using assms Cycler_init_left_empty[of a None] by (auto simp: cycler_copy_def simp del: Cycler_init.simps)
  then obtain d where "peek (Sub a) = Inr d" "dom d = keys a"
    using peek_wellformed[of a] assms by auto
  with assms a init_side_wellformed[of a] show ?thesis
    by (auto simp: cycler_copy_def process_keys_def)
qed

lemma wellformed_from_iter: "wellformed (from_iter k vs)"
  by (simp add: from_iter_def list_all_iff)

lemma iter_from_iter: "iter (from_iter k vs) = map (\<lambda>v. [k \<mapsto> v]) vs"
  by (simp add: from_iter_def)

lemma keys_from_iter: "keys (from_iter k vs) = {k}"
  by (simp add: from_iter_def)

section \<open>Facts about transposition and sums of one-key cyclers\<close>

lemma map_entry_tabulate:
  "distinct ks \<Longrightarrow> AList.map_entry k f (map (\<lambda>x. (x, g x)) ks) = map (\<lambda>x. (x, if x = k then f (g x) else g x)) ks"
  by (induction ks) auto

lemma append_values_tabulate:
  "set ks' \<subseteq> dom d \<Longrightarrow> distinct ks' \<Longrightarrow> distinct ks \<Longrightarrow>
     append_values ks' d (map (\<lambda>x. (x, g x)) ks) =
       Inr (map (\<lambda>x. (x, if x \<in> set ks' then g x @ [the (d x)] else g x)) ks)"
proof (induction ks' arbitrary: g)
  case Nil
  then show ?case by simp
next
  case (Cons k ks')
  then obtain v where v: "d k = Some v" by auto
  have "append_values (k # ks') d (map (\<lambda>x. (x, g x)) ks) =
          append_values ks' d (map (\<lambda>x. (x, if x = k then g x @ [v] else g x)) ks)"
    using v Cons.prems by (simp add: map_entry_tabulate)
  also have "\<dots> = Inr (map (\<lambda>x. (x, if x \<in> set ks' then (if x = k then g x @ [v] else g x) @ [the (d x)]
                                   else (if x = k then g x @ [v] else g x))) ks)"
    using Cons by simp
  also have "\<dots> = Inr (map (\<lambda>x. (x, if x \<in> set (k # ks') then g x @ [the (d x)] else g x)) ks)"
    using Cons.prems v by auto
  finally show ?case .
qed

lemma transpose_loop_tabulate:
  "\<forall>d\<in>set ds. set ks \<subseteq> dom d \<Longrightarrow> distinct ks \<Longrightarrow>
     transpose_loop ds ks (map (\<lambda>x. (x, g x)) ks) = Inr (map (\<lambda>x. (x, g x @ column x ds)) ks)"
proof (induction ds arbitrary: g)
  case Nil
  then show ?case by (simp add: column_def)
next
  case (Cons d ds)
  have "append_values ks d (map (\<lambda>x. (x, g x)) ks) =
          Inr (map (\<lambda>x. (x, if x \<in> set ks then g x @ [the (d x)] else g x)) ks)"
    using Cons.prems by (intro append_values_tabulate) auto
  also have "\<dots> = Inr (map (\<lambda>x. (x, g x @ [the (d x)])) ks)" by simp
  finally have "transpose_loop (d # ds) ks (map (\<lambda>x. (x, g x)) ks) =
      transpose_loop ds ks (map (\<lambda>x. (x, g x @ [the (d x)])) ks)" by simp
  also have "\<dots> = Inr (map (\<lambda>x. (x, (g x @ [the (d x)]) @ column x ds)) ks)"
    using Cons.prems by (intro Cons.IH) auto
  finally show ?case by (simp add: column_def)
qed

lemma by_key_wellformed:
  assumes "wellformed c" "key_order ks c"
  shows "by_key ks c = Inr (table ks (iter c))"
proof -
  have "\<forall>d\<in>set (iter c). set ks \<subseteq> dom d"
    using wellformed_dom[OF assms(1)] assms(2) by (simp add: key_order_def)
  then show ?thesis
    using assms(2) transpose_loop_tabulate[of "iter c" ks "\<lambda>_. []"]
    by (simp add: by_key_def table_def key_order_def)
qed

lemma map_of_table: "map_of (table ks ds) k = (if k \<in> set ks then Some (column k ds) else None)"
  by (induction ks) (auto simp: table_def)

lemma row_table:
  assumes "i < length ds" "dom (ds ! i) = set ks"
  shows "row (table ks ds) i = ds ! i"
proof
  fix k
  show "row (table ks ds) i k = (ds ! i) k"
  proof (cases "k \<in> set ks")
    case True
    with assms(2) obtain v where "(ds ! i) k = Some v" by blast
    with True assms(1) show ?thesis by (simp add: row_def map_of_table column_def)
  next
    case False
    with assms(2) have "(ds ! i) k = None" by blast
    with False show ?thesis by (simp add: row_def map_of_table)
  qed
qed

lemma row_Cons:
  "k \<notin> fst ` set tbl \<Longrightarrow> row ((k, v) # tbl) i = [k \<mapsto> v ! i] ++ row tbl i"
proof (rule ext)
  fix x
  assume k: "k \<notin> fst ` set tbl"
  show "row ((k, v) # tbl) i x = ([k \<mapsto> v ! i] ++ row tbl i) x"
  proof (cases "x = k")
    case True
    with k have "map_of tbl x = None" by (simp add: map_of_eq_None_iff)
    with True show ?thesis by (simp add: row_def map_add_def)
  next
    case False
    then show ?thesis by (simp add: row_def map_add_def split: option.splits)
  qed
qed

lemma row_Nil: "row [] i = Map.empty"
  by (simp add: row_def)

lemma compose_Zip_nth:
  "length xs = length ys \<Longrightarrow>
     compose Zip xs ys = map (\<lambda>i. (xs ! i) ++ (ys ! i)) [0..<length xs]"
  by (rule nth_equalityI) (simp_all add: compose_def pairs_def)

lemma fold_add_leaves:
  assumes "wellformed acc" "iter acc \<noteq> []" "distinct (map fst tbl)"
    "fst ` set tbl \<inter> keys acc = {}" "\<forall>(k, v)\<in>set tbl. length v = length (iter acc)"
  shows "\<exists>c. fold_add (\<lambda>(k, v). Inr (from_iter k v)) acc tbl = Inr c \<and> wellformed c \<and>
           keys c = keys acc \<union> fst ` set tbl \<and>
           iter c = map (\<lambda>i. (iter acc ! i) ++ row tbl i) [0..<length (iter acc)]"
  using assms
proof (induction tbl arbitrary: acc)
  case Nil
  then show ?case by (simp add: row_Nil map_nth)
next
  case (Cons kv tbl)
  obtain k v where kv: "kv = (k, v)" by (cases kv)
  let ?b = "from_iter k v"
  let ?acc = "Cycler2 (Sub acc) Zip (Sub ?b) (keys acc \<union> keys ?b)"
  have lv: "length v = length (iter acc)" using Cons.prems kv by simp
  have knew: "k \<notin> keys acc" "k \<notin> fst ` set tbl" using Cons.prems kv by auto
  have a: "add acc ?b = Inr ?acc"
    using Cons.prems lv knew
    by (intro add_wellformed) (simp_all add: wellformed_from_iter len_iter iter_from_iter keys_from_iter)
  have it: "iter ?acc = map (\<lambda>i. (iter acc ! i) ++ [k \<mapsto> v ! i]) [0..<length (iter acc)]"
    using lv by (simp add: compose_Zip_nth iter_from_iter)
  have len: "length (iter ?acc) = length (iter acc)" using it by simp
  have wf: "wellformed ?acc"
    using Cons.prems lv knew by (auto simp: wellformed_from_iter iter_from_iter keys_from_iter)
  have ne: "iter ?acc \<noteq> []" using len Cons.prems by (metis length_0_conv)
  have "\<exists>c. fold_add (\<lambda>(k, v). Inr (from_iter k v)) ?acc tbl = Inr c \<and> wellformed c \<and>
           keys c = keys ?acc \<union> fst ` set tbl \<and>
           iter c = map (\<lambda>i. (iter ?acc ! i) ++ row tbl i) [0..<length (iter ?acc)]"
  proof (rule Cons.IH[OF wf ne])
    show "distinct (map fst tbl)" using Cons.prems by simp
    show "fst ` set tbl \<inter> keys ?acc = {}" using Cons.prems kv by (auto simp: keys_from_iter)
    show "\<forall>(k, v)\<in>set tbl. length v = length (iter ?acc)" using Cons.prems len by auto
  qed
  then obtain c where c: "fold_add (\<lambda>(k, v). Inr (from_iter k v)) ?acc tbl = Inr c" "wellformed c"
      "keys c = keys ?acc \<union> fst ` set tbl"
      "iter c = map (\<lambda>i. (iter ?acc ! i) ++ row tbl i) [0..<length (iter ?acc)]" by blast
  have "iter c = map (\<lambda>i. (iter acc ! i) ++ row (kv # tbl) i) [0..<length (iter acc)]"
    unfolding c(4) len using it knew kv by (simp add: row_Cons)
  moreover have "keys c = keys acc \<union> fst ` set (kv # tbl)"
    using c(3) kv by (auto simp: keys_from_iter)
  moreover have "fold_add (\<lambda>(k, v). Inr (from_iter k v)) acc (kv # tbl) = Inr c"
    using a c(1) kv by simp
  ultimately show ?case using c(2) by blast
qed

lemma reduce_add_leaves:
  assumes "tbl \<noteq> []" "distinct (map fst tbl)" "\<forall>(k, v)\<in>set tbl. length v = m"
    "0 < m \<or> length tbl = 1"
  shows "\<exists>c. reduce_add (\<lambda>(k, v). Inr (from_iter k v)) tbl = Inr c \<and> wellformed c \<and>
           keys c = fst ` set tbl \<and> iter c = map (row tbl) [0..<m]"
proof -
  from assms(1) obtain k v rest where tbl: "tbl = (k, v) # rest" by (cases tbl) auto
  have lv: "length v = m" using assms(3) tbl by simp
  have krest: "k \<notin> fst ` set rest" using assms(2) tbl by auto
  have first: "map (\<lambda>x. [k \<mapsto> x]) v = map (\<lambda>i. [k \<mapsto> v ! i]) [0..<m]"
    using lv by (intro nth_equalityI) simp_all
  show ?thesis
  proof (cases "rest = []")
    case True
    then show ?thesis
      using tbl first by (simp add: wellformed_from_iter keys_from_iter iter_from_iter row_Cons row_Nil)
  next
    case False
    with assms(4) tbl have m: "0 < m" by (cases rest) auto
    have "\<exists>c. fold_add (\<lambda>(k, v). Inr (from_iter k v)) (from_iter k v) rest = Inr c \<and> wellformed c \<and>
           keys c = keys (from_iter k v) \<union> fst ` set rest \<and>
           iter c = map (\<lambda>i. (iter (from_iter k v) ! i) ++ row rest i) [0..<length (iter (from_iter k v))]"
    proof (rule fold_add_leaves[OF wellformed_from_iter])
      show "iter (from_iter k v) \<noteq> []" using m lv by (auto simp: iter_from_iter)
      show "distinct (map fst rest)" using assms(2) tbl by simp
      show "fst ` set rest \<inter> keys (from_iter k v) = {}" using krest by (simp add: keys_from_iter)
      show "\<forall>(k', v')\<in>set rest. length v' = length (iter (from_iter k v))"
        using assms(3) tbl lv by (auto simp: iter_from_iter)
    qed
    then obtain c where c: "fold_add (\<lambda>(k, v). Inr (from_iter k v)) (from_iter k v) rest = Inr c" "wellformed c"
        "keys c = keys (from_iter k v) \<union> fst ` set rest"
        "iter c = map (\<lambda>i. (iter (from_iter k v) ! i) ++ row rest i) [0..<length (iter (from_iter k v))]" by blast
    have "iter c = map (row tbl) [0..<m]"
      unfolding c(4) using lv tbl krest by (simp add: iter_from_iter row_Cons)
    moreover have "keys c = fst ` set tbl" using c(3) tbl by (simp add: keys_from_iter)
    moreover have "reduce_add (\<lambda>(k, v). Inr (from_iter k v)) tbl = Inr c" using c(1) tbl by simp
    ultimately show ?thesis using c(2) by blast
  qed
qed

section \<open>Facts about keys, pairwise and product composition, and simplification\<close>

lemma wellformed_keys: "wellformed c \<Longrightarrow> finite (keys c) \<and> keys c \<noteq> {}"
  by (induction c rule: wellformed.induct) (auto simp: is_singleton_def)

lemma wellformed_empty_keys:
  assumes "wellformed c" and "iter c = []"
  shows "is_singleton (keys c)"
proof -
  from wellformed_empty[OF assms] obtain K where "c = Cycler1 (Dicts []) K" ..
  with assms(1) show ?thesis by simp
qed

lemma key_order_singleton:
  assumes "key_order ks c" "is_singleton (keys c)"
  shows "length ks = 1"
proof -
  from assms obtain k where "set ks = {k}" "distinct ks" by (auto simp: key_order_def is_singleton_def)
  then show ?thesis using distinct_card[of ks] by simp
qed

text \<open>
  Pairwise composition of two cyclers of the same non-zero length with disjoint
  keys: record \<open>i\<close> of the result is the union of the two records \<open>i\<close>.
\<close>

lemma add_zip_records:
  assumes "wellformed A" and "wellformed B" and "keys A \<inter> keys B = {}" and "len A = len B"
    and "0 < len A"
  shows "\<exists>C. add A B = Inr C \<and> len C = len A \<and> keys C = keys A \<union> keys B \<and>
             iter C = map (\<lambda>i. (iter A ! i) ++ (iter B ! i)) [0..<len A]"
proof -
  have "iter A \<noteq> []" using assms(5) by (auto simp: len_iter)
  then have "add A B = Inr (Cycler2 (Sub A) Zip (Sub B) (keys A \<union> keys B))"
    using assms by (intro add_wellformed)
  moreover have "length (iter A) = length (iter B)" using assms(4) by (simp add: len_iter)
  ultimately show ?thesis
    using assms(4) by (simp add: compose_Zip_nth op_dict_def len_iter len_side_iter)
qed

text \<open>
  Product composition of two non-empty cyclers with disjoint keys: the length is
  the product of the lengths, the right operand runs fastest, and the first
  \<open>len B\<close> records carry the values of the first record of \<open>A\<close>.
\<close>

lemma mul_product_records:
  assumes "wellformed A" and "wellformed B" and "keys A \<inter> keys B = {}"
    and "0 < len A" and "0 < len B"
  shows "\<exists>C. mul A B = Inr C \<and> len C = len A * len B \<and> keys C = keys A \<union> keys B \<and>
             iter C = concat (map (\<lambda>a. map (\<lambda>b. a ++ b) (iter B)) (iter A)) \<and>
             (\<forall>i<len B. \<forall>k\<in>keys A. (iter C ! i) k = (iter A ! 0) k)"
proof -
  let ?C = "Cycler2 (Sub A) Product (Sub B) (keys A \<union> keys B)"
  have ne: "iter A \<noteq> []" "iter B \<noteq> []" using assms(4,5) by (auto simp: len_iter)
  have m: "mul A B = Inr ?C"
    using assms ne by (simp add: mul_def Cycler_init_wellformed del: Cycler_init.simps)
  have it: "iter ?C = concat (map (\<lambda>a. map (\<lambda>b. a ++ b) (iter B)) (iter A))"
    by (simp add: compose_def pairs_def List.product_concat_map map_concat comp_def)
  obtain a as where a: "iter A = a # as" using ne(1) by (cases "iter A") auto
  have first: "(iter ?C ! i) k = (iter A ! 0) k" if "i < len B" "k \<in> keys A" for i k
  proof -
    have i: "i < length (iter B)" using that(1) by (simp add: len_iter)
    then have "iter ?C ! i = a ++ (iter B ! i)"
      unfolding it a by (simp add: nth_append)
    moreover have "dom (iter B ! i) = keys B"
      using wellformed_dom[OF assms(2)] i by simp
    then have "(iter B ! i) k = None" using that(2) assms(3) by blast
    ultimately show ?thesis using a by (simp add: map_add_def)
  qed
  have "len ?C = len A * len B" by (simp add: op_dict_def)
  then show ?thesis using m it first by auto
qed

lemma list_all_zip_same: "list_all (\<lambda>(a, b). a = b) (zip xs xs)"
  by (induction xs) auto

lemma simplify_iter:
  assumes "wellformed C" and "key_order ks C"
  shows "\<exists>S. simplify ks C = Inr S \<and> wellformed S \<and> keys S = keys C \<and> iter S = iter C"
proof -
  let ?tbl = "table ks (iter C)"
  let ?m = "length (iter C)"
  have ks: "distinct ks" "set ks = keys C" using assms(2) by (simp_all add: key_order_def)
  have "keys C \<noteq> {}" using wellformed_keys[OF assms(1)] by simp
  then have ne: "?tbl \<noteq> []" using ks by (auto simp: table_def)
  have d: "distinct (map fst ?tbl)" using ks by (simp add: table_def comp_def)
  have l: "\<forall>(k, v)\<in>set ?tbl. length v = ?m" by (auto simp: table_def column_def)
  have one: "0 < ?m \<or> length ?tbl = 1"
  proof (cases "iter C = []")
    case True
    then have "length ks = 1"
      using key_order_singleton[OF assms(2)] wellformed_empty_keys[OF assms(1)] by simp
    then show ?thesis by (simp add: table_def)
  next
    case False
    then show ?thesis by simp
  qed
  from reduce_add_leaves[OF ne d l one] obtain S where
    S: "reduce_add (\<lambda>(k, v). Inr (from_iter k v)) ?tbl = Inr S" "wellformed S"
       "keys S = fst ` set ?tbl" "iter S = map (row ?tbl) [0..<?m]" by blast
  have "map (row ?tbl) [0..<?m] = map (\<lambda>i. iter C ! i) [0..<?m]"
  proof (rule map_cong[OF refl])
    fix i assume "i \<in> set [0..<?m]"
    then have i: "i < ?m" by simp
    then have "dom (iter C ! i) = set ks" using wellformed_dom[OF assms(1)] ks by simp
    with i show "row ?tbl i = iter C ! i" by (rule row_table)
  qed
  then have it: "iter S = iter C" using S(4) by (simp add: map_nth)
  have k: "keys S = keys C" using S(3) ks by (simp add: table_def image_comp comp_def)
  have "simplify ks C = Inr S"
    using S(1) by_key_wellformed[OF assms] by (simp add: simplify_def)
  then show ?thesis using it k S(2) by simp
qed

lemma eq_same_records: "keys S = keys C \<Longrightarrow> iter S = iter C \<Longrightarrow> eq S C"
  by (simp add: eq_def len_iter sym_diff_def list_all_zip_same)

section \<open>Facts about renaming\<close>

lemma rename_entries_single:
  assumes "\<forall>d\<in>set ds. dom d = {old}" and "old \<noteq> new"
  shows "rename_entries old new ds = Inr (map (rename_key old new) ds)"
  using assms(1)
proof (induction ds)
  case Nil
  then show ?case by simp
next
  case (Cons d ds)
  then have dom: "dom d = {old}" by simp
  then obtain v where v: "d old = Some v" by blast
  have "[new \<mapsto> v] = rename_key old new d"
  proof
    fix k
    have "k \<noteq> old \<Longrightarrow> d k = None" using dom by blast
    then show "[new \<mapsto> v] k = rename_key old new d k"
      using v assms(2) by (auto simp: rename_key_def)
  qed
  with Cons v show ?case by simp
qed

lemma dom_rename_key:
  "old \<in> dom d \<Longrightarrow> dom (rename_key old new d) = insert new (dom d - {old})"
  by (auto simp: rename_key_def dom_def)

lemma rename_key_right:
  assumes "old \<notin> dom x" and "new \<notin> dom x"
  shows "x ++ rename_key old new y = rename_key old new (x ++ y)"
proof
  fix k
  from assms have "x old = None" "x new = None" by auto
  then show "(x ++ rename_key old new y) k = rename_key old new (x ++ y) k"
    by (simp add: rename_key_def map_add_def split: option.splits)
qed

lemma rename_key_left:
  assumes "old \<notin> dom y" and "new \<notin> dom y"
  shows "rename_key old new x ++ y = rename_key old new (x ++ y)"
proof
  fix k
  from assms have "y old = None" "y new = None" by auto
  then show "(rename_key old new x ++ y) k = rename_key old new (x ++ y) k"
    by (simp add: rename_key_def map_add_def split: option.splits)
qed

lemma pairs_map_right: "pairs f xs (map g ys) = map (\<lambda>(a, b). (a, g b)) (pairs f xs ys)"
  by (cases f) (simp_all add: pairs_def zip_map2 List.product_concat_map map_concat comp_def)

lemma pairs_map_left: "pairs f (map g xs) ys = map (\<lambda>(a, b). (g a, b)) (pairs f xs ys)"
  by (cases f) (simp_all add: pairs_def zip_map1 List.product_concat_map map_concat comp_def)

lemma compose_rename_right:
  assumes "\<forall>d\<in>set xs. old \<notin> dom d \<and> new \<notin> dom d"
  shows "compose f xs (map (rename_key old new) ys) = map (rename_key old new) (compose f xs ys)"
proof -
  have "(a, b) \<in> set (pairs f xs ys) \<Longrightarrow> a ++ rename_key old new b = rename_key old new (a ++ b)" for a b
    using assms pairs_mem[of a b f xs ys] by (intro rename_key_right) auto
  then show ?thesis by (auto simp: compose_def pairs_map_right)
qed

lemma compose_rename_left:
  assumes "\<forall>d\<in>set ys. old \<notin> dom d \<and> new \<notin> dom d"
  shows "compose f (map (rename_key old new) xs) ys = map (rename_key old new) (compose f xs ys)"
proof -
  have "(a, b) \<in> set (pairs f xs ys) \<Longrightarrow> rename_key old new a ++ b = rename_key old new (a ++ b)" for a b
    using assms pairs_mem[of a b f xs ys] by (intro rename_key_left) auto
  then show ?thesis by (auto simp: compose_def pairs_map_left)
qed

lemma change_key_wellformed:
  "wellformed c \<Longrightarrow> old \<noteq> new \<Longrightarrow> new \<notin> keys c \<Longrightarrow> old \<in> keys c \<Longrightarrow>
     \<exists>c'. change_key c old new = Inr c' \<and> wellformed c' \<and>
          keys c' = insert new (keys c - {old}) \<and>
          iter c' = map (rename_key old new) (iter c)"
proof (induction c rule: wellformed.induct)
  case (1 ds K)
  then have K: "K = {old}" by (auto simp: is_singleton_def)
  with 1 have ds: "\<forall>d\<in>set ds. dom d = {old}" by (simp add: list_all_iff)
  have r: "rename_entries old new ds = Inr (map (rename_key old new) ds)"
    using ds 1(2) by (rule rename_entries_single)
  have "\<forall>d\<in>set ds. dom (rename_key old new d) = {new}"
    using ds by (simp add: dom_rename_key)
  with r K 1(2) show ?case by (simp add: list_all_iff)
next
  case (2 c K)
  then obtain c' where c': "change_key c old new = Inr c'" "wellformed c'"
    "keys c' = insert new (keys c - {old})" "iter c' = map (rename_key old new) (iter c)"
    by auto
  with 2 show ?case by simp
next
  case (3 a f b K)
  have da: "\<forall>d\<in>set (iter a). dom d = keys a" using 3 wellformed_dom[of a] by simp
  have db: "\<forall>d\<in>set (iter b). dom d = keys b" using 3 wellformed_dom[of b] by simp
  show ?case
  proof (cases "old \<in> keys b")
    case True
    with 3 obtain b' where b': "change_key b old new = Inr b'" "wellformed b'"
      "keys b' = insert new (keys b - {old})" "iter b' = map (rename_key old new) (iter b)"
      by auto
    have "\<forall>d\<in>set (iter a). old \<notin> dom d \<and> new \<notin> dom d" using da True 3 by auto
    then have "compose f (iter a) (iter b') = map (rename_key old new) (compose f (iter a) (iter b))"
      unfolding b'(4) by (rule compose_rename_right)
    moreover have "insert new (K - {old}) = keys a \<union> keys b'" "keys a \<inter> keys b' = {}"
      using 3 True b'(3) by auto
    ultimately show ?thesis using 3 True b' by simp
  next
    case False
    with 3 have olda: "old \<in> keys a" by auto
    with 3 obtain a' where a': "change_key a old new = Inr a'" "wellformed a'"
      "keys a' = insert new (keys a - {old})" "iter a' = map (rename_key old new) (iter a)"
      by auto
    have "\<forall>d\<in>set (iter b). old \<notin> dom d \<and> new \<notin> dom d" using db False 3 by auto
    then have "compose f (iter a') (iter b) = map (rename_key old new) (compose f (iter a) (iter b))"
      unfolding a'(4) by (rule compose_rename_left)
    moreover have "insert new (K - {old}) = keys a' \<union> keys b" "keys a' \<inter> keys b = {}"
      using 3 False a'(3) by auto
    ultimately show ?thesis using 3 False a' by simp
  qed
qed simp_all

section \<open>Facts about the values under a key\<close>

lemma value_list_wellformed:
  "wellformed c \<Longrightarrow> key_order ks c \<Longrightarrow> k \<in> keys c \<Longrightarrow>
     value_list ks c k = Inr (column k (iter c))"
  by (simp add: value_list_def by_key_wellformed map_of_table key_order_def)

lemma fold_add_map:
  "\<forall>x\<in>set xs. g x = g' (h x) \<Longrightarrow> fold_add g acc xs = fold_add g' acc (map h xs)"
  by (induction xs arbitrary: acc) (auto split: sum.splits)

lemma reduce_add_map:
  "\<forall>x\<in>set xs. g x = g' (h x) \<Longrightarrow> reduce_add g xs = reduce_add g' (map h xs)"
  by (cases xs) (auto simp: fold_add_map split: sum.splits)

lemma column_rows:
  assumes "map_of tbl k = Some v" and "length v = m"
  shows "column k (map (row tbl) [0..<m]) = v"
proof -
  have "column k (map (row tbl) [0..<m]) = map (\<lambda>i. v ! i) [0..<m]"
    using assms(1) by (simp add: column_def row_def comp_def)
  also have "\<dots> = v" unfolding assms(2)[symmetric] by (rule map_nth)
  finally show ?thesis .
qed

lemma map_of_tabulate:
  "map_of (map (\<lambda>k. (k, g k)) ks) k = (if k \<in> set ks then Some (g k) else None)"
  by (induction ks) auto

lemma length_column: "length (column k ds) = length ds"
  by (simp add: column_def)

text \<open>Sums of one-key cyclers built from the columns \<open>g k\<close>, all of length \<open>m\<close>.\<close>

lemma reduce_add_columns:
  assumes "distinct ks" and "ks \<noteq> []" and "\<forall>k\<in>set ks. length (g k) = m"
    and "0 < m \<or> length ks = 1"
  shows "\<exists>c. reduce_add (\<lambda>(k, v). Inr (from_iter k v)) (map (\<lambda>k. (k, g k)) ks) = Inr c \<and>
           wellformed c \<and> keys c = set ks \<and> len c = m \<and>
           (\<forall>k\<in>set ks. column k (iter c) = g k)"
proof -
  let ?tbl = "map (\<lambda>k. (k, g k)) ks"
  have "\<exists>c. reduce_add (\<lambda>(k, v). Inr (from_iter k v)) ?tbl = Inr c \<and> wellformed c \<and>
           keys c = fst ` set ?tbl \<and> iter c = map (row ?tbl) [0..<m]"
    using assms by (intro reduce_add_leaves) (auto simp: comp_def)
  then obtain c where c: "reduce_add (\<lambda>(k, v). Inr (from_iter k v)) ?tbl = Inr c" "wellformed c"
    "keys c = fst ` set ?tbl" "iter c = map (row ?tbl) [0..<m]" by blast
  have "keys c = set ks" using c(3) by (simp add: image_comp comp_def)
  moreover have "len c = m" using c(4) by (simp add: len_iter)
  moreover have "\<forall>k\<in>set ks. column k (iter c) = g k"
    using assms(3) c(4) by (simp add: column_rows map_of_tabulate)
  ultimately show ?thesis using c(1,2) by blast
qed

section \<open>Every operation returns a well-formed cycler\<close>

lemma add_Inr:
  assumes "wellformed a" and "wellformed b" and "add a b = Inr c"
  shows "wellformed c"
proof -
  from assms(3) have "Cycler_init (Sub a) (Some (Zip, Sub b)) = Inr c"
    by (simp add: add_def del: Cycler_init.simps split: if_splits)
  with assms(1,2) show ?thesis using Cycler_init_Inr by blast
qed

lemma mul_Inr:
  assumes "wellformed a" and "wellformed b" and "mul a b = Inr c"
  shows "wellformed c"
  using assms Cycler_init_Inr[of a b Product c] by (simp add: mul_def del: Cycler_init.simps)

lemma fold_add_Inr:
  "wellformed acc \<Longrightarrow> \<forall>x\<in>set xs. \<forall>c. g x = Inr c \<longrightarrow> wellformed c \<Longrightarrow>
     fold_add g acc xs = Inr c \<Longrightarrow> wellformed c"
proof (induction xs arbitrary: acc)
  case Nil
  then show ?case by simp
next
  case (Cons x xs)
  from Cons.prems(3) obtain b acc' where b: "g x = Inr b" "add acc b = Inr acc'"
    "fold_add g acc' xs = Inr c"
    by (auto split: sum.splits)
  have "wellformed b" using Cons.prems(2) b(1) by simp
  then have "wellformed acc'" using Cons.prems(1) b(2) add_Inr by blast
  then show ?case using Cons.IH[of acc'] Cons.prems(2) b(3) by simp
qed

lemma reduce_add_Inr:
  assumes "\<forall>x\<in>set xs. \<forall>c. g x = Inr c \<longrightarrow> wellformed c" and "reduce_add g xs = Inr c"
  shows "wellformed c"
proof (cases xs)
  case Nil
  with assms(2) show ?thesis by simp
next
  case (Cons x xs')
  with assms(2) obtain b where b: "g x = Inr b" "fold_add g b xs' = Inr c"
    by (auto split: sum.splits)
  have "wellformed b" using assms(1) b(1) Cons by simp
  then show ?thesis using fold_add_Inr[of b xs' g c] assms(1) b(2) Cons by simp
qed

lemma cycler_label_Inr: "cycler_label label i = Inr c \<Longrightarrow> wellformed c"
  by (auto simp: cycler_label_def wellformed_from_iter split: itr.splits if_splits sum.splits)

lemma cycler_kwargs_Inr: "cycler_kwargs kwargs = Inr c \<Longrightarrow> wellformed c"
  by (rule reduce_add_Inr[of kwargs "\<lambda>(k, v). cycler_label k v"])
     (auto simp: cycler_kwargs_def cycler_label_Inr split: if_splits)

lemma simplify_Inr:
  assumes "simplify ks a = Inr c"
  shows "wellformed c"
proof -
  from assms obtain byk where "reduce_add (\<lambda>(k, v). Inr (from_iter k v)) byk = Inr c"
    by (auto simp: simplify_def split: sum.splits)
  then show ?thesis
    by (rule reduce_add_Inr[rotated]) (auto simp: wellformed_from_iter)
qed

lemma mul_int_Inr:
  assumes "mul_int ks a n = Inr c"
  shows "wellformed c"
proof -
  from assms obtain byk where
    "reduce_add (\<lambda>(k, v). Inr (from_iter k (list_times v n))) byk = Inr c"
    by (auto simp: mul_int_def split: sum.splits)
  then show ?thesis
    by (rule reduce_add_Inr[rotated]) (auto simp: wellformed_from_iter)
qed

lemma getitem_Inr:
  assumes "getitem ks a key = Inr c"
  shows "wellformed c"
proof (cases key)
  case NotASlice
  with assms show ?thesis by (simp add: getitem_def)
next
  case (Slice sl)
  with assms obtain byk where
    "reduce_add (\<lambda>(k, v). case sl v of Inl e \<Rightarrow> Inl e | Inr w \<Rightarrow> Inr (from_iter k w)) byk = Inr c"
    by (auto simp: getitem_def split: sum.splits)
  then show ?thesis
    by (rule reduce_add_Inr[rotated]) (auto simp: wellformed_from_iter split: sum.splits)
qed

lemma concat_cyclers_Inr:
  assumes "concat_cyclers kl kr ks a b = Inr c"
  shows "wellformed c"
proof -
  from assms obtain l r where "reduce_add (chained l r) ks = Inr c"
    by (auto simp: concat_cyclers_def split: if_splits sum.splits)
  then show ?thesis
    by (rule reduce_add_Inr[rotated])
       (auto simp: chained_def wellformed_from_iter split: option.splits)
qed

lemma change_key_Inr:
  assumes "wellformed c" and "change_key c old new = Inr c'"
  shows "wellformed c'"
proof (cases "old = new")
  case True
  with assms show ?thesis by (cases c) auto
next
  case False
  with assms(2) have k: "new \<notin> keys c" "old \<in> keys c"
    by (cases c; auto split: if_splits)+
  from change_key_wellformed[OF assms(1) False k] assms(2) show ?thesis by auto
qed

lemma reachable_wellformed: "reachable c \<Longrightarrow> wellformed c"
proof (induction rule: reachable.induct)
  case (by_label label vs c)
  then show ?case by (rule cycler_label_Inr)
next
  case (by_label_cycler a label c)
  from by_label_cycler(2) show ?case by (rule cycler_label_Inr)
next
  case (by_copy a c)
  then show ?case using cycler_copy_Inr[of a c] by blast
next
  case (by_kwargs kwargs c)
  from by_kwargs(2) show ?case by (rule cycler_kwargs_Inr)
next
  case (by_add a b c)
  then show ?case using add_Inr[of a b c] by simp
next
  case (by_mul a b c)
  then show ?case using mul_Inr[of a b c] by simp
next
  case (by_init a b f c)
  then show ?case using Cycler_init_Inr[of a b f c] by blast
next
  case (by_mul_int a ks n c)
  from by_mul_int(3) show ?case by (rule mul_int_Inr)
next
  case (by_iadd a b c)
  then have "inplace Zip a b = Inr c" by (simp add: iadd_def)
  with by_iadd show ?case using inplace_Inr[of a b Zip c] by blast
next
  case (by_imul a b c)
  then have "inplace Product a b = Inr c" by (simp add: imul_def)
  with by_imul show ?case using inplace_Inr[of a b Product c] by blast
next
  case (by_getitem a ks key c)
  from by_getitem(3) show ?case by (rule getitem_Inr)
next
  case (by_simplify a ks c)
  from by_simplify(3) show ?case by (rule simplify_Inr)
next
  case (by_concat a b kl kr ks c)
  from by_concat(6) show ?case by (rule concat_cyclers_Inr)
next
  case (by_change_key a old new c)
  then show ?case using change_key_Inr[of a old new c] by simp
qed

section \<open>Facts about multiplication by an integer\<close>

lemma length_list_times: "length (list_times v n) = length v * nat n"
proof -
  have "length (concat (replicate k v)) = length v * k" for k
    by (induction k) simp_all
  then show ?thesis by (simp add: list_times_def)
qed

lemma list_times_one: "list_times v 1 = v"
  by (simp add: list_times_def)

lemma mul_int_one: "mul_int ks C 1 = simplify ks C"
  by (simp add: mul_int_def simplify_def list_times_one split: sum.splits)

lemma mul_int_repeats:
  assumes "wellformed C" and "key_order ks C" and "0 < n \<or> is_singleton (keys C)"
  shows "\<exists>R. mul_int ks C n = Inr R \<and> wellformed R \<and> keys R = keys C \<and>
             len R = len C * nat n \<and>
             (\<forall>k\<in>keys C. column k (iter R) = list_times (column k (iter C)) n)"
proof -
  let ?g = "\<lambda>k. list_times (column k (iter C)) n"
  let ?m = "len C * nat n"
  have ks: "distinct ks" "set ks = keys C" using assms(2) by (simp_all add: key_order_def)
  have ne: "ks \<noteq> []" using wellformed_keys[OF assms(1)] ks by auto
  have lens: "\<forall>k\<in>set ks. length (?g k) = ?m"
    by (simp add: length_list_times length_column len_iter)
  have one: "0 < ?m \<or> length ks = 1"
  proof (cases "iter C = [] \<or> is_singleton (keys C)")
    case True
    then have "is_singleton (keys C)" using wellformed_empty_keys[OF assms(1)] by blast
    then show ?thesis using key_order_singleton[OF assms(2)] by simp
  next
    case False
    with assms(3) show ?thesis by (simp add: len_iter)
  qed
  from reduce_add_columns[OF ks(1) ne lens one] obtain R where
    R: "reduce_add (\<lambda>(k, v). Inr (from_iter k v)) (map (\<lambda>k. (k, ?g k)) ks) = Inr R"
      "wellformed R" "keys R = set ks" "len R = ?m" "\<forall>k\<in>set ks. column k (iter R) = ?g k"
    by blast
  have "reduce_add (\<lambda>(k, v). Inr (from_iter k (list_times v n))) (table ks (iter C)) =
        reduce_add (\<lambda>(k, v). Inr (from_iter k v)) (map (\<lambda>(k, v). (k, list_times v n)) (table ks (iter C)))"
    by (rule reduce_add_map) auto
  also have "map (\<lambda>(k, v). (k, list_times v n)) (table ks (iter C)) = map (\<lambda>k. (k, ?g k)) ks"
    by (simp add: table_def)
  finally have "mul_int ks C n = Inr R"
    using R(1) by_key_wellformed[OF assms(1,2)] by (simp add: mul_int_def)
  then show ?thesis using R(2-5) ks by auto
qed

text \<open>
  The repeat law, for every factor \<open>n \<ge> 1\<close> and, when the cycler has a single
  key, for every \<open>n\<close>.
\<close>

lemma mul_int_by_key:
  assumes "wellformed C" and "key_order ks C" and "0 < n \<or> is_singleton (keys C)"
  shows "\<exists>R. mul_int ks C n = Inr R \<and> len R = len C * nat n \<and>
             (\<forall>kr k. key_order kr R \<and> k \<in> keys C \<longrightarrow>
                (\<exists>v. value_list ks C k = Inr v \<and> value_list kr R k = Inr (list_times v n))) \<and>
             (n = 1 \<longrightarrow> eq R C)"
proof -
  from mul_int_repeats[OF assms] obtain R where
    R: "mul_int ks C n = Inr R" "wellformed R" "keys R = keys C" "len R = len C * nat n"
      "\<forall>k\<in>keys C. column k (iter R) = list_times (column k (iter C)) n" by blast
  have "\<exists>v. value_list ks C k = Inr v \<and> value_list kr R k = Inr (list_times v n)"
    if "key_order kr R" "k \<in> keys C" for kr k
    using that assms(1,2) R(2,3,5) by (simp add: value_list_wellformed)
  moreover have "eq R C" if "n = 1"
  proof -
    from simplify_iter[OF assms(1,2)] obtain S where
      "simplify ks C = Inr S" "keys S = keys C" "iter S = iter C" by blast
    with R(1) that show ?thesis by (simp add: mul_int_one eq_same_records)
  qed
  ultimately show ?thesis using R(1,4) by blast
qed

section \<open>The claims\<close>

text \<open>\<^verbatim>\<open>__add__\<close> refuses operands of unequal lengths before it builds anything.\<close>

lemma add_unequal: "len A \<noteq> len B \<Longrightarrow> add A B = Inl (UnequalLength (len A) (len B))"
  by (simp add: add_def)

text \<open>No composite has a child of length 0: construction raises \<^verbatim>\<open>StopIteration\<close>.\<close>

lemma composite_with_empty_child:
  assumes "wellformed A" and "wellformed B" and "len A = 0 \<or> len B = 0"
  shows "Cycler_init (Sub A) (Some (f, Sub B)) = Inl StopIteration \<and>
         inplace f A B = Inl StopIteration"
proof -
  have e: "iter A = [] \<or> iter B = []" using assms(3) by (simp add: len_iter)
  have "Cycler_init (Sub A) (Some (f, Sub B)) = Inl StopIteration"
  proof (cases "iter A = []")
    case True
    with assms(1) show ?thesis by (rule Cycler_init_left_empty)
  next
    case False
    with e assms(1,2) show ?thesis by (intro Cycler_init_right_empty) simp_all
  qed
  moreover have "inplace f A B = Inl StopIteration"
    using assms(1,2) e by (rule inplace_empty)
  ultimately show ?thesis by simp
qed

text \<open>
  C1. Pairwise composition of two cyclers with disjoint keys and equal lengths
  should yield the merged records. At two cyclers of length 0 the code raises
  \<^verbatim>\<open>StopIteration\<close> instead of returning a cycler of length 0.
\<close>

theorem add_empty_cyclers_raises:
  "wellformed (from_iter ''color'' ([] :: string list)) \<and>
   wellformed (from_iter ''linestyle'' ([] :: string list)) \<and>
   keys (from_iter ''color'' ([] :: string list)) \<inter> keys (from_iter ''linestyle'' ([] :: string list)) = {} \<and>
   len (from_iter ''color'' ([] :: string list)) = len (from_iter ''linestyle'' ([] :: string list)) \<and>
   add (from_iter ''color'' ([] :: string list)) (from_iter ''linestyle'' []) = Inl StopIteration"
  by (simp add: from_iter_def add_def process_keys_def peek_def)

text \<open>
  C2. Product composition of two cyclers with disjoint keys should have the
  product of the lengths as its length. With a right operand of length 0 the
  code raises \<^verbatim>\<open>StopIteration\<close> instead of returning a cycler of length 0.
\<close>

theorem mul_empty_cycler_raises:
  "wellformed (from_iter ''color'' [''r'', ''g'']) \<and>
   wellformed (from_iter ''linestyle'' ([] :: string list)) \<and>
   keys (from_iter ''color'' [''r'', ''g'']) \<inter> keys (from_iter ''linestyle'' ([] :: string list)) = {} \<and>
   len (from_iter ''color'' [''r'', ''g'']) * len (from_iter ''linestyle'' ([] :: string list)) = 0 \<and>
   mul (from_iter ''color'' [''r'', ''g'']) (from_iter ''linestyle'' []) = Inl StopIteration"
  by (simp add: from_iter_def mul_def process_keys_def peek_def)

text \<open>
  C3, as stated: every composition of two cyclers with a common key raises the
  key-overlap error. Pairwise composition compares the lengths first, and
  reports unequal lengths instead.
\<close>

theorem overlapping_keys_unequal_lengths:
  "keys (from_iter ''a'' [1, 2 :: nat]) \<inter> keys (from_iter ''a'' [3 :: nat]) \<noteq> {} \<and>
   add (from_iter ''a'' [1, 2 :: nat]) (from_iter ''a'' [3]) = Inl (UnequalLength 2 1) \<and>
   add (from_iter ''a'' [1, 2 :: nat]) (from_iter ''a'' [3]) \<noteq> Inl OverlappingCycles"
  by (simp add: from_iter_def add_def)

text \<open>
  C3, amended. For two non-empty cyclers with a common key, product composition
  and both in-place variants raise the key-overlap error; pairwise composition
  raises it when the lengths are equal and the length error otherwise.
\<close>

theorem overlapping_keys_raise:
  assumes "wellformed A" and "wellformed B" and "0 < len A" and "0 < len B"
    and "keys A \<inter> keys B \<noteq> {}"
  shows "mul A B = Inl OverlappingCycles \<and> iadd A B = Inl OverlappingCycles \<and>
         imul A B = Inl OverlappingCycles \<and>
         add A B = (if len A = len B then Inl OverlappingCycles
                    else Inl (UnequalLength (len A) (len B)))"
proof -
  have ne: "iter A \<noteq> []" "iter B \<noteq> []" using assms(3,4) by (auto simp: len_iter)
  have "Cycler_init (Sub A) (Some (f, Sub B)) = Inl OverlappingCycles" for f
    using assms ne by (simp add: Cycler_init_wellformed del: Cycler_init.simps)
  moreover have "inplace f A B = Inl OverlappingCycles" for f
    using assms ne by (simp add: inplace_wellformed)
  ultimately show ?thesis by (simp add: add_def mul_def iadd_def imul_def del: Cycler_init.simps)
qed

theorem overlapping_keys_raise_witness:
  "wellformed (from_iter ''a'' [1, 2 :: nat]) \<and> wellformed (from_iter ''a'' [3, 4 :: nat]) \<and>
   0 < len (from_iter ''a'' [1, 2 :: nat]) \<and> 0 < len (from_iter ''a'' [3, 4 :: nat]) \<and>
   keys (from_iter ''a'' [1, 2 :: nat]) \<inter> keys (from_iter ''a'' [3, 4 :: nat]) \<noteq> {} \<and>
   mul (from_iter ''a'' [1, 2 :: nat]) (from_iter ''a'' [3, 4]) = Inl OverlappingCycles \<and>
   iadd (from_iter ''a'' [1, 2 :: nat]) (from_iter ''a'' [3, 4]) = Inl OverlappingCycles \<and>
   imul (from_iter ''a'' [1, 2 :: nat]) (from_iter ''a'' [3, 4]) = Inl OverlappingCycles \<and>
   add (from_iter ''a'' [1, 2 :: nat]) (from_iter ''a'' [3, 4]) = Inl OverlappingCycles"
proof -
  have h: "wellformed (from_iter ''a'' [1, 2 :: nat])" "wellformed (from_iter ''a'' [3, 4 :: nat])"
    "0 < len (from_iter ''a'' [1, 2 :: nat])" "0 < len (from_iter ''a'' [3, 4 :: nat])"
    "keys (from_iter ''a'' [1, 2 :: nat]) \<inter> keys (from_iter ''a'' [3, 4 :: nat]) \<noteq> {}"
    by (simp_all add: from_iter_def)
  have l: "len (from_iter ''a'' [1, 2 :: nat]) = len (from_iter ''a'' [3, 4 :: nat])"
    by (simp add: from_iter_def)
  show ?thesis using h l overlapping_keys_raise[OF h] by simp
qed

text \<open>
  C4. Pairwise composition of cyclers of unequal lengths should fail, the
  in-place variant included. \<^verbatim>\<open>__iadd__\<close> has no length check: for lengths 2 and 1 it
  returns a cycler that yields one record.
\<close>

theorem iadd_unequal_lengths_succeeds:
  "len (from_iter ''a'' [1, 2 :: nat]) = 2 \<and> len (from_iter ''b'' [3 :: nat]) = 1 \<and>
   iadd (from_iter ''a'' [1, 2 :: nat]) (from_iter ''b'' [3]) =
     Inr (Cycler2 (Sub (from_iter ''a'' [1, 2])) Zip (Sub (from_iter ''b'' [3])) {''a'', ''b''}) \<and>
   len (Cycler2 (Sub (from_iter ''a'' [1, 2 :: nat])) Zip (Sub (from_iter ''b'' [3])) {''a'', ''b''}) = 1 \<and>
   iter (Cycler2 (Sub (from_iter ''a'' [1, 2 :: nat])) Zip (Sub (from_iter ''b'' [3])) {''a'', ''b''}) =
     [[''a'' \<mapsto> 1, ''b'' \<mapsto> 3]]"
  by (simp add: from_iter_def iadd_def inplace_def copy_fields_def process_keys_def peek_def
      compose_def pairs_def op_dict_def insert_commute)

text \<open>
  C5. For every cycler \<open>C\<close>, whatever the order in which its key set is
  iterated, \<^verbatim>\<open>simplify\<close> returns a cycler equal to \<open>C\<close> under \<^verbatim>\<open>__eq__\<close>: the same
  length, the same keys and the same records in the same order.
\<close>

theorem simplify_equal:
  assumes "wellformed C" and "key_order ks C"
  shows "\<exists>S. simplify ks C = Inr S \<and> eq S C \<and> len S = len C \<and> keys S = keys C \<and> iter S = iter C"
proof -
  from simplify_iter[OF assms] obtain S where
    S: "simplify ks C = Inr S" "keys S = keys C" "iter S = iter C" by blast
  then have "eq S C" "len S = len C" by (simp_all add: eq_same_records len_iter)
  with S show ?thesis by blast
qed

theorem simplify_equal_witness:
  "wellformed (Cycler2 (Sub (from_iter ''a'' [1, 2 :: nat])) Product (Sub (from_iter ''b'' [3, 4])) {''a'', ''b''}) \<and>
   key_order [''b'', ''a''] (Cycler2 (Sub (from_iter ''a'' [1, 2 :: nat])) Product (Sub (from_iter ''b'' [3, 4])) {''a'', ''b''}) \<and>
   (\<exists>S. simplify [''b'', ''a''] (Cycler2 (Sub (from_iter ''a'' [1, 2 :: nat])) Product (Sub (from_iter ''b'' [3, 4])) {''a'', ''b''}) = Inr S \<and>
        eq S (Cycler2 (Sub (from_iter ''a'' [1, 2 :: nat])) Product (Sub (from_iter ''b'' [3, 4])) {''a'', ''b''}))"
proof -
  let ?C = "Cycler2 (Sub (from_iter ''a'' [1, 2 :: nat])) Product (Sub (from_iter ''b'' [3, 4])) {''a'', ''b''}"
  have h: "wellformed ?C" "key_order [''b'', ''a''] ?C"
    by (auto simp: from_iter_def key_order_def compose_def pairs_def)
  show ?thesis using h simplify_equal[OF h] by blast
qed

text \<open>
  C6. For cyclers \<open>A\<close> and \<open>B\<close> with the same keys, \<^verbatim>\<open>concat\<close> returns a cycler of
  length \<open>len A + len B\<close> whose values under each key are those of \<open>A\<close> followed
  by those of \<open>B\<close>. When the key sets differ it raises an error that carries
  their intersection and their symmetric difference.
\<close>

theorem concat_cyclers_spec:
  assumes "wellformed A" and "wellformed B"
    and "key_order kl A" and "key_order kr B" and "key_order ks A"
  shows "if keys A = keys B
         then \<exists>C. concat_cyclers kl kr ks A B = Inr C \<and> len C = len A + len B \<and>
                keys C = keys A \<and>
                (\<forall>kc k. key_order kc C \<and> k \<in> keys A \<longrightarrow>
                   (\<exists>va vb. value_list kl A k = Inr va \<and> value_list kr B k = Inr vb \<and>
                            value_list kc C k = Inr (va @ vb)))
         else concat_cyclers kl kr ks A B =
                Inl (KeysDoNotMatch (keys A \<inter> keys B) (sym_diff (keys A) (keys B)))"
proof (cases "keys A = keys B")
  case False
  then show ?thesis by (simp add: concat_cyclers_def)
next
  case True
  let ?g = "\<lambda>k. column k (iter A) @ column k (iter B)"
  let ?m = "len A + len B"
  have ks: "distinct ks" "set ks = keys A" using assms(5) by (simp_all add: key_order_def)
  have kl: "set kl = keys A" using assms(3) by (simp add: key_order_def)
  have kr: "set kr = keys A" using assms(4) True by (simp add: key_order_def)
  have ne: "ks \<noteq> []" using wellformed_keys[OF assms(1)] ks by auto
  have ch: "\<forall>k\<in>set ks. chained (table kl (iter A)) (table kr (iter B)) k =
                (\<lambda>(k, v). Inr (from_iter k v)) (k, ?g k)"
    using ks kl kr by (simp add: chained_def map_of_table)
  have lens: "\<forall>k\<in>set ks. length (?g k) = ?m" by (simp add: length_column len_iter)
  have one: "0 < ?m \<or> length ks = 1"
  proof (cases "iter A = []")
    case True
    then show ?thesis
      using key_order_singleton[OF assms(5)] wellformed_empty_keys[OF assms(1)] by simp
  next
    case False
    then show ?thesis by (simp add: len_iter)
  qed
  from reduce_add_columns[OF ks(1) ne lens one] obtain C where
    C: "reduce_add (\<lambda>(k, v). Inr (from_iter k v)) (map (\<lambda>k. (k, ?g k)) ks) = Inr C"
      "wellformed C" "keys C = set ks" "len C = ?m" "\<forall>k\<in>set ks. column k (iter C) = ?g k"
    by blast
  have "reduce_add (chained (table kl (iter A)) (table kr (iter B))) ks =
          reduce_add (\<lambda>(k, v). Inr (from_iter k v)) (map (\<lambda>k. (k, ?g k)) ks)"
    using ch by (rule reduce_add_map)
  then have "concat_cyclers kl kr ks A B = Inr C"
    using True C(1) by_key_wellformed[OF assms(1,3)] by_key_wellformed[OF assms(2,4)]
    by (simp add: concat_cyclers_def)
  moreover have "\<exists>va vb. value_list kl A k = Inr va \<and> value_list kr B k = Inr vb \<and>
      value_list kc C k = Inr (va @ vb)" if "key_order kc C" "k \<in> keys A" for kc k
    using that assms True C(2,3,5) ks by (simp add: value_list_wellformed)
  ultimately show ?thesis using True C(3,4) ks by auto
qed

theorem concat_cyclers_spec_witness:
  "wellformed (from_iter ''a'' [1, 2 :: nat]) \<and> wellformed (from_iter ''a'' [3 :: nat]) \<and>
   key_order [''a''] (from_iter ''a'' [1, 2 :: nat]) \<and> key_order [''a''] (from_iter ''a'' [3 :: nat]) \<and>
   (\<exists>C. concat_cyclers [''a''] [''a''] [''a''] (from_iter ''a'' [1, 2 :: nat]) (from_iter ''a'' [3]) = Inr C \<and>
        len C = 3 \<and>
        (\<forall>kc. key_order kc C \<longrightarrow>
           (\<exists>va vb. value_list [''a''] (from_iter ''a'' [1, 2 :: nat]) ''a'' = Inr va \<and>
                    value_list [''a''] (from_iter ''a'' [3 :: nat]) ''a'' = Inr vb \<and>
                    value_list kc C ''a'' = Inr (va @ vb))))"
proof -
  have h: "wellformed (from_iter ''a'' [1, 2 :: nat])" "wellformed (from_iter ''a'' [3 :: nat])"
    "key_order [''a''] (from_iter ''a'' [1, 2 :: nat])" "key_order [''a''] (from_iter ''a'' [3 :: nat])"
    "key_order [''a''] (from_iter ''a'' [1, 2 :: nat])"
    by (simp_all add: from_iter_def key_order_def)
  have k: "keys (from_iter ''a'' [1, 2 :: nat]) = keys (from_iter ''a'' [3 :: nat])"
    "keys (from_iter ''a'' [1, 2 :: nat]) = {''a''}"
    "len (from_iter ''a'' [1, 2 :: nat]) + len (from_iter ''a'' [3 :: nat]) = 3"
    by (simp_all add: from_iter_def)
  show ?thesis using h k concat_cyclers_spec[OF h] by auto
qed

text \<open>
  C7. Multiplying a cycler by 0 should give a cycler of length 0. For a cycler
  with two keys the code adds two cyclers of length 0 and raises \<^verbatim>\<open>StopIteration\<close>.
\<close>

theorem mul_int_zero_two_keys_raises:
  "add (from_iter ''a'' [1 :: nat]) (from_iter ''b'' [2]) =
     Inr (Cycler2 (Sub (from_iter ''a'' [1])) Zip (Sub (from_iter ''b'' [2])) {''a'', ''b''}) \<and>
   mul_int [''a'', ''b'']
     (Cycler2 (Sub (from_iter ''a'' [1 :: nat])) Zip (Sub (from_iter ''b'' [2])) {''a'', ''b''}) 0 =
     Inl StopIteration"
  by (simp add: from_iter_def add_def mul_int_def by_key_def list_times_def process_keys_def peek_def
      compose_def pairs_def insert_commute)

text \<open>
  C8. \<^verbatim>\<open>change_key(old, new)\<close> does nothing when \<open>old = new\<close>, whether or not \<open>old\<close>
  is a key; otherwise it raises the key-exists error when \<open>new\<close> is a key, the
  key-not-found error when neither is a key, and else renames \<open>old\<close> to \<open>new\<close> in
  the key set and in every record, the value staying the same.
\<close>

theorem change_key_spec:
  assumes "wellformed C"
  shows "(old = new \<longrightarrow> change_key C old new = Inr C) \<and>
         (old \<noteq> new \<and> new \<in> keys C \<longrightarrow> change_key C old new = Inl (KeyAlreadyExists old new)) \<and>
         (old \<noteq> new \<and> new \<notin> keys C \<and> old \<notin> keys C \<longrightarrow>
            change_key C old new = Inl (KeyNotFound old new)) \<and>
         (old \<noteq> new \<and> new \<notin> keys C \<and> old \<in> keys C \<longrightarrow>
            (\<exists>C'. change_key C old new = Inr C' \<and>
                  keys C' = insert new (keys C - {old}) \<and>
                  len C' = len C \<and>
                  iter C' = map (rename_key old new) (iter C) \<and>
                  (\<forall>i<len C. (iter C' ! i) new = (iter C ! i) old)))"
proof -
  have 1: "old = new \<Longrightarrow> change_key C old new = Inr C" by (cases C) simp_all
  have 2: "old \<noteq> new \<Longrightarrow> new \<in> keys C \<Longrightarrow> change_key C old new = Inl (KeyAlreadyExists old new)"
    by (cases C) simp_all
  have 3: "old \<noteq> new \<Longrightarrow> new \<notin> keys C \<Longrightarrow> old \<notin> keys C \<Longrightarrow>
      change_key C old new = Inl (KeyNotFound old new)"
    by (cases C) simp_all
  have 4: "\<exists>C'. change_key C old new = Inr C' \<and> keys C' = insert new (keys C - {old}) \<and>
             len C' = len C \<and> iter C' = map (rename_key old new) (iter C) \<and>
             (\<forall>i<len C. (iter C' ! i) new = (iter C ! i) old)"
    if "old \<noteq> new" "new \<notin> keys C" "old \<in> keys C"
  proof -
    from change_key_wellformed[OF assms that] obtain C' where
      C': "change_key C old new = Inr C'" "keys C' = insert new (keys C - {old})"
        "iter C' = map (rename_key old new) (iter C)" by blast
    have "len C' = len C" using C'(3) by (simp add: len_iter)
    moreover have "\<forall>i<len C. (iter C' ! i) new = (iter C ! i) old"
      using C'(3) by (simp add: len_iter rename_key_def)
    ultimately show ?thesis using C' by blast
  qed
  from 1 2 3 4 show ?thesis by blast
qed

theorem change_key_spec_witness:
  "wellformed (Cycler2 (Sub (from_iter ''a'' [1, 2 :: nat])) Zip (Sub (from_iter ''b'' [3, 4])) {''a'', ''b''}) \<and>
   change_key (Cycler2 (Sub (from_iter ''a'' [1, 2 :: nat])) Zip (Sub (from_iter ''b'' [3, 4])) {''a'', ''b''}) ''z'' ''z'' =
     Inr (Cycler2 (Sub (from_iter ''a'' [1, 2 :: nat])) Zip (Sub (from_iter ''b'' [3, 4])) {''a'', ''b''}) \<and>
   change_key (Cycler2 (Sub (from_iter ''a'' [1, 2 :: nat])) Zip (Sub (from_iter ''b'' [3, 4])) {''a'', ''b''}) ''a'' ''b'' =
     Inl (KeyAlreadyExists ''a'' ''b'') \<and>
   change_key (Cycler2 (Sub (from_iter ''a'' [1, 2 :: nat])) Zip (Sub (from_iter ''b'' [3, 4])) {''a'', ''b''}) ''x'' ''y'' =
     Inl (KeyNotFound ''x'' ''y'') \<and>
   (\<exists>C'. change_key (Cycler2 (Sub (from_iter ''a'' [1, 2 :: nat])) Zip (Sub (from_iter ''b'' [3, 4])) {''a'', ''b''}) ''a'' ''c'' = Inr C' \<and>
         keys C' = insert ''c'' ({''a'', ''b''} - {''a''}) \<and>
         iter C' = map (rename_key ''a'' ''c'')
           (iter (Cycler2 (Sub (from_iter ''a'' [1, 2 :: nat])) Zip (Sub (from_iter ''b'' [3, 4])) {''a'', ''b''})))"
proof -
  let ?C = "Cycler2 (Sub (from_iter ''a'' [1, 2 :: nat])) Zip (Sub (from_iter ''b'' [3, 4])) {''a'', ''b''}"
  have h: "wellformed ?C" by (auto simp: from_iter_def compose_def pairs_def)
  have k: "keys ?C = {''a'', ''b''}" by simp
  have 1: "change_key ?C ''z'' ''z'' = Inr ?C"
    using change_key_spec[OF h, of "''z''" "''z''"] by blast
  have "''a'' \<noteq> ''b'' \<and> ''b'' \<in> keys ?C" by simp
  then have 2: "change_key ?C ''a'' ''b'' = Inl (KeyAlreadyExists ''a'' ''b'')"
    using change_key_spec[OF h, of "''a''" "''b''"] by blast
  have "''x'' \<noteq> ''y'' \<and> ''y'' \<notin> keys ?C \<and> ''x'' \<notin> keys ?C" by simp
  then have 3: "change_key ?C ''x'' ''y'' = Inl (KeyNotFound ''x'' ''y'')"
    using change_key_spec[OF h, of "''x''" "''y''"] by blast
  have "''a'' \<noteq> ''c'' \<and> ''c'' \<notin> keys ?C \<and> ''a'' \<in> keys ?C" by simp
  then have 4: "\<exists>C'. change_key ?C ''a'' ''c'' = Inr C' \<and>
      keys C' = insert ''c'' (keys ?C - {''a''}) \<and>
      iter C' = map (rename_key ''a'' ''c'') (iter ?C)"
    using change_key_spec[OF h, of "''a''" "''c''"] by blast
  from h 1 2 3 4 show ?thesis unfolding k by blast
qed

text \<open>
  C9. Every record yielded by a cycler built through the public functions of
  the module, leaf or composite, by construction, composition, in-place
  composition, slicing, simplification, concatenation or renaming, has exactly
  the key set \<^verbatim>\<open>keys\<close> of that cycler.
\<close>

theorem reachable_records_keys:
  assumes "reachable C"
  shows "\<forall>d\<in>set (iter C). dom d = keys C"
proof -
  from assms have "wellformed C" by (rule reachable_wellformed)
  then show ?thesis by (rule wellformed_dom)
qed

theorem reachable_records_keys_witness:
  "reachable (Cycler2 (Sub (from_iter ''color'' [''r'', ''g''])) Product
               (Sub (from_iter ''lw'' [''1'', ''2''])) {''color'', ''lw''}) \<and>
   list_all (\<lambda>d. dom d = {''color'', ''lw''})
     (iter (Cycler2 (Sub (from_iter ''color'' [''r'', ''g''])) Product
               (Sub (from_iter ''lw'' [''1'', ''2''])) {''color'', ''lw''}))"
proof -
  let ?a = "from_iter ''color'' [''r'', ''g'']"
  let ?b = "from_iter ''lw'' [''1'', ''2'']"
  let ?c = "Cycler2 (Sub ?a) Product (Sub ?b) {''color'', ''lw''}"
  have a: "reachable ?a" by (rule by_label[of "''color''" "[''r'', ''g'']"]) (simp add: cycler_label_def)
  have b: "reachable ?b" by (rule by_label[of "''lw''" "[''1'', ''2'']"]) (simp add: cycler_label_def)
  have "mul ?a ?b = Inr ?c"
    by (simp add: mul_def from_iter_def process_keys_def peek_def insert_commute)
  with a b have c: "reachable ?c" by (rule by_mul)
  have k: "keys ?c = {''color'', ''lw''}" by simp
  from reachable_records_keys[OF c]
  have "list_all (\<lambda>d. dom d = {''color'', ''lw''}) (iter ?c)"
    unfolding list_all_iff k .
  with c show ?thesis ..
qed

text \<open>
  C10. Two cyclers of length 0 with disjoint keys cannot be composed: pairwise
  and product composition and both in-place variants raise \<^verbatim>\<open>StopIteration\<close>, from
  the peek at the first record of an operand that yields none.
\<close>

theorem zero_length_composites_raise:
  assumes "wellformed A" and "wellformed B" and "len A = 0" and "len B = 0"
    and "keys A \<inter> keys B = {}"
  shows "add A B = Inl StopIteration \<and> mul A B = Inl StopIteration \<and>
         iadd A B = Inl StopIteration \<and> imul A B = Inl StopIteration"
proof -
  have e: "iter A = []" "iter B = []" using assms by (simp_all add: len_iter)
  have "Cycler_init (Sub A) (Some (f, Sub B)) = Inl StopIteration" for f
    using assms(1) e(1) by (rule Cycler_init_left_empty)
  moreover have "inplace f A B = Inl StopIteration" for f
    using assms(1,2) e by (intro inplace_empty) simp_all
  ultimately show ?thesis using assms(3,4) by (simp add: add_def mul_def iadd_def imul_def del: Cycler_init.simps)
qed

theorem zero_length_composites_raise_witness:
  "wellformed (from_iter ''a'' ([] :: nat list)) \<and> wellformed (from_iter ''b'' ([] :: nat list)) \<and>
   len (from_iter ''a'' ([] :: nat list)) = 0 \<and> len (from_iter ''b'' ([] :: nat list)) = 0 \<and>
   keys (from_iter ''a'' ([] :: nat list)) \<inter> keys (from_iter ''b'' ([] :: nat list)) = {} \<and>
   add (from_iter ''a'' ([] :: nat list)) (from_iter ''b'' []) = Inl StopIteration \<and>
   mul (from_iter ''a'' ([] :: nat list)) (from_iter ''b'' []) = Inl StopIteration \<and>
   iadd (from_iter ''a'' ([] :: nat list)) (from_iter ''b'' []) = Inl StopIteration \<and>
   imul (from_iter ''a'' ([] :: nat list)) (from_iter ''b'' []) = Inl StopIteration"
proof -
  have h: "wellformed (from_iter ''a'' ([] :: nat list))" "wellformed (from_iter ''b'' ([] :: nat list))"
    "len (from_iter ''a'' ([] :: nat list)) = 0" "len (from_iter ''b'' ([] :: nat list)) = 0"
    "keys (from_iter ''a'' ([] :: nat list)) \<inter> keys (from_iter ''b'' ([] :: nat list)) = {}"
    by (simp_all add: from_iter_def)
  show ?thesis using h zero_length_composites_raise[OF h] by simp
qed

end
